theory Spec2Isabelle
  imports Main "HOL-Library.Word"
begin

unbundle bit_operations_syntax

section \<open>Data model\<close>

text \<open>
  Go's \<open>uint16\<close> and \<open>byte\<close> are words of 16 and 8 bits. Go's \<open>int\<close> (64 bits on the
  platforms the library targets) is modelled by \<open>int\<close>: every \<open>int\<close> the code computes
  is a length, an index below 65536, or an argument that the validation of \<open>Split\<close> has
  already bounded, so no \<open>int\<close> operation of the code can overflow.
\<close>

type_synonym uint16 = "16 word"
type_synonym byte = "8 word"

definition ShareOverhead :: nat where "ShareOverhead = 2"
definition SizeGF16 :: int where "SizeGF16 = 65536"
definition ModuloGF16 :: int where "ModuloGF16 = SizeGF16 - 1"
definition MaxPartsGF16 :: int where "MaxPartsGF16 = SizeGF16 - 1"

section \<open>The table generator (tables\_generator.go)\<close>

subsection \<open>multiplyGF16\<close>

text \<open>
  The loop \<open>for a > 0 && b > 0\<close> of \<open>multiplyGF16\<close>, with the loop variables
  \<open>a\<close>, \<open>b\<close> and the product \<open>p\<close> as arguments. \<open>b\<close> is shifted right in
  every round, which is why the loop ends.
\<close>

lemma drop_bit_1_less: "(0::uint16) < b \<Longrightarrow> unat (drop_bit (Suc 0) b) < unat b"
proof -
  assume "0 < b"
  then have "unat b \<noteq> 0" by (simp add: word_greater_zero_iff unat_eq_zero)
  then have "unat b div 2 < unat b" by simp
  then show ?thesis by (simp add: drop_bit_eq_div unat_div)
qed

function mulloop :: "uint16 \<Rightarrow> uint16 \<Rightarrow> uint16 \<Rightarrow> uint16" where
  "mulloop a b p =
     (if a > 0 \<and> b > 0
      then mulloop (if a > 0x7FFF then push_bit 1 a XOR 0x100B else push_bit 1 a)
                   (drop_bit 1 b)
                   (if b mod 2 = 1 then p XOR a else p)
      else p)"
  by pat_completeness auto
termination
  by (relation "measure (\<lambda>(a, b, p). unat b)") (simp_all add: drop_bit_1_less)

declare mulloop.simps [simp del]

definition multiplyGF16 :: "uint16 \<Rightarrow> uint16 \<Rightarrow> uint16" where
  "multiplyGF16 a b = mulloop a b 0"

subsection \<open>tableGenerator and main\<close>

text \<open>
  The loop \<open>for product != 1\<close> of \<open>tableGenerator\<close>. Its state is the tuple
  \<open>(product, expTable, logTable, count)\<close>. Nothing in the code bounds the number of
  rounds (with generator 0 the product stays 0), so the loop is a partial function and
  \<open>None\<close> stands for a run that never leaves it.
\<close>

type_synonym gen_state = "uint16 \<times> uint16 list \<times> uint16 list \<times> int"

partial_function (option) tableLoop :: "uint16 \<Rightarrow> gen_state \<Rightarrow> gen_state option" where
  "tableLoop generator s =
     (case s of (product, expT, logT, count) \<Rightarrow>
        if product \<noteq> 1
        then tableLoop generator
               (multiplyGF16 generator product,
                expT @ [multiplyGF16 generator product],
                logT[unat (multiplyGF16 generator product) := word_of_int count],
                count + 1)
        else Some s)"

text \<open>The state in which \<open>tableGenerator\<close> enters the loop.\<close>

definition tableInit :: "uint16 \<Rightarrow> gen_state" where
  "tableInit generator =
     (generator, [1, generator], (replicate (nat SizeGF16) 0)[unat generator := 1], 2)"

text \<open>
  What the tool writes. The text of the file is abstracted to the sequence of
  \<open>WriteString\<close> calls: the fixed placeholders, one \<open>Entry\<close> per formatted table
  element and one \<open>LineBreak\<close> after every 16th element.
\<close>

datatype chunk = Header | LogTableOpen | ExpTableOpen | Footer | Entry uint16 | LineBreak

fun emitTable :: "nat \<Rightarrow> uint16 list \<Rightarrow> chunk list" where
  "emitTable counter [] = []"
| "emitTable counter (n # ns) =
     Entry n # (if (counter + 1) mod 16 = 0 then [LineBreak] else []) @ emitTable (counter + 1) ns"

definition tableChunks :: "uint16 list \<Rightarrow> uint16 list \<Rightarrow> chunk list" where
  "tableChunks logT expT =
     [Header, LogTableOpen] @ emitTable 0 logT @ [ExpTableOpen] @ emitTable 0 expT @ [Footer]"

text \<open>
  The operating system is an environment: the result of the write to standard error,
  of \<open>os.Create\<close>, and of the k-th \<open>WriteString\<close> to the file (\<open>None\<close> is Go's
  \<open>nil\<close> error).
\<close>

datatype io_error = IOError nat

record gen_env =
  stderr_write :: "io_error option"
  create_file :: "io_error option"
  file_write :: "nat \<Rightarrow> io_error option"

fun writeAll :: "(nat \<Rightarrow> io_error option) \<Rightarrow> nat \<Rightarrow> chunk list \<Rightarrow> io_error option \<times> chunk list" where
  "writeAll wr k [] = (None, [])"
| "writeAll wr k (c # cs) =
     (case wr k of
        Some e \<Rightarrow> (Some e, [])
      | None \<Rightarrow> (case writeAll wr (k + 1) cs of (err, written) \<Rightarrow> (err, c # written)))"

text \<open>
  \<open>tableGenerator\<close> returns the error it hands to \<open>main\<close> and what it wrote to
  \<open>tables.go\<close>, if it came to create the file. The constant \<open>generator\<close> of the source
  is the first argument, so that the self-check can be studied for other choices.
\<close>

definition tableGenerator :: "uint16 \<Rightarrow> gen_env \<Rightarrow> (io_error option \<times> chunk list option) option" where
  "tableGenerator generator env =
     (case tableLoop generator (tableInit generator) of
        None \<Rightarrow> None
      | Some (product, expT, logT, count) \<Rightarrow>
          Some (if count \<noteq> SizeGF16
                then (stderr_write env, None)
                else (case create_file env of
                        Some e \<Rightarrow> (Some e, None)
                      | None \<Rightarrow>
                          (case writeAll (file_write env) 0 (tableChunks logT expT) of
                             (err, written) \<Rightarrow> (err, Some written)))))"

definition generator :: uint16 where "generator = 257"

text \<open>\<open>main\<close>: the exit status of the process.\<close>

definition main_with :: "uint16 \<Rightarrow> gen_env \<Rightarrow> int option" where
  "main_with g env =
     (case tableGenerator g env of
        None \<Rightarrow> None
      | Some (err, out) \<Rightarrow> Some (if err \<noteq> None then 1 else 0))"

definition main :: "gen_env \<Rightarrow> int option" where
  "main env = main_with generator env"

section \<open>The field tables (tables.go)\<close>

text \<open>
  Modelled from the spec: the file \<open>tables.go\<close>, which holds the constants \<open>logTable\<close>
  and \<open>expTable\<close>, is not among the sources. The spec (4.1) and the header that the
  generator writes say that the two tables are the ones \<open>tableGenerator\<close> produces with
  generator 257; they are defined here as the tables the generator's loop ends with
  (\<open>expTable\<close> first).
\<close>

definition expTable :: "uint16 list" where
  "expTable =
     (case tableLoop generator (tableInit generator) of
        Some (product, expT, logT, count) \<Rightarrow> expT
      | None \<Rightarrow> [])"

text \<open>
  Modelled from the spec: \<open>logTable\<close> of the absent \<open>tables.go\<close>, the logarithm table
  the generator's loop ends with.
\<close>

definition logTable :: "uint16 list" where
  "logTable =
     (case tableLoop generator (tableInit generator) of
        Some (product, expT, logT, count) \<Rightarrow> logT
      | None \<Rightarrow> [])"

section \<open>Field arithmetic\<close>

text \<open>
  \<open>crypto/subtle\<close>: \<open>ConstantTimeEq\<close> is 1 on equal arguments and 0 otherwise;
  \<open>ConstantTimeSelect v x y\<close> is computed as \<open>^(v-1)&x | (v-1)&y\<close>.
\<close>

definition ConstantTimeEq :: "32 word \<Rightarrow> 32 word \<Rightarrow> int" where
  "ConstantTimeEq x y = (if x = y then 1 else 0)"

definition ConstantTimeSelect :: "int \<Rightarrow> int \<Rightarrow> int \<Rightarrow> int" where
  "ConstantTimeSelect v x y = ((NOT (v - 1)) AND x) OR ((v - 1) AND y)"

definition add :: "uint16 \<Rightarrow> uint16 \<Rightarrow> uint16" where
  "add a b = a XOR b"

definition mult :: "uint16 \<Rightarrow> uint16 \<Rightarrow> uint16" where
  "mult a b =
     (let log_a = logTable ! unat a;
          log_b = logTable ! unat b;
          sum = (uint log_a + uint log_b) mod ModuloGF16;
          ret = uint (expTable ! nat sum);
          ret = ConstantTimeSelect (ConstantTimeEq (ucast a) 0) 0 ret;
          ret = ConstantTimeSelect (ConstantTimeEq (ucast b) 0) 0 ret
      in word_of_int ret)"

text \<open>\<open>div\<close>: \<open>None\<close> is the panic "divide by zero".\<close>

definition div_gf :: "uint16 \<Rightarrow> uint16 \<Rightarrow> uint16 option" where
  "div_gf a b =
     (if b = 0 then None
      else
        (let log_a = logTable ! unat a;
             log_b = logTable ! unat b;
             diff = ((uint log_a - uint log_b) + ModuloGF16) mod ModuloGF16;
             ret = uint (expTable ! nat diff);
             ret = ConstantTimeSelect (ConstantTimeEq (ucast a) 0) 0 ret
         in Some (word_of_int ret)))"

section \<open>Byte order helpers\<close>

text \<open>
  \<open>binary.Write\<close> and \<open>binary.Read\<close> with \<open>binary.BigEndian\<close>. \<open>byteToUint16\<close> fills
  \<open>len(s)/2\<close> words, so a trailing odd byte is not read. Neither call can fail on a
  buffer in memory, so the two \<open>panic(err)\<close> branches are not reachable.
\<close>

definition uint16ToByte :: "uint16 list \<Rightarrow> byte list" where
  "uint16ToByte s = concat (map (\<lambda>w. [ucast (drop_bit 8 w), ucast w]) s)"

fun byteToUint16 :: "byte list \<Rightarrow> uint16 list" where
  "byteToUint16 (hi # lo # rest) = (push_bit 8 (ucast hi) OR ucast lo) # byteToUint16 rest"
| "byteToUint16 [b] = []"
| "byteToUint16 [] = []"

section \<open>Polynomials\<close>

record polynomial =
  coefficients :: "uint16 list"

text \<open>
  The randomness source: the k-th call of \<open>rand.Read\<close> either fails or delivers bytes,
  of which the call takes as many as its buffer holds.
\<close>

type_synonym rand_source = "nat \<Rightarrow> io_error + (nat \<Rightarrow> byte)"

definition rand_Read :: "rand_source \<Rightarrow> nat \<Rightarrow> nat \<Rightarrow> io_error + byte list" where
  "rand_Read rnd k n = (case rnd k of Inl e \<Rightarrow> Inl e | Inr f \<Rightarrow> Inr (map f [0..<n]))"

text \<open>
  \<open>makePolynomial\<close>, as the k-th reader of the randomness source. The buffer has
  \<open>degree*2\<close> bytes, a product of two \<open>uint16\<close> that wraps around.
\<close>

definition makePolynomial :: "rand_source \<Rightarrow> nat \<Rightarrow> uint16 \<Rightarrow> uint16 \<Rightarrow> io_error + polynomial" where
  "makePolynomial rnd k intercept degree =
     (case rand_Read rnd k (unat (degree * 2)) of
        Inl e \<Rightarrow> Inl e
      | Inr coefficients8 \<Rightarrow> Inr \<lparr>coefficients = [intercept] @ byteToUint16 coefficients8\<rparr>)"

text \<open>
  The loop of \<open>evaluate\<close>, \<open>for i := degree - 1; i >= 0; i--\<close>: the third argument is
  \<open>i + 1\<close>.
\<close>

fun horner :: "uint16 list \<Rightarrow> uint16 \<Rightarrow> nat \<Rightarrow> uint16 \<Rightarrow> uint16" where
  "horner cs x 0 out = out"
| "horner cs x (Suc i) out = horner cs x i (add (mult out x) (cs ! i))"

text \<open>\<open>evaluate\<close>: \<open>None\<close> is the index panic on a polynomial without coefficients.\<close>

definition evaluate :: "polynomial \<Rightarrow> uint16 \<Rightarrow> uint16 option" where
  "evaluate p x =
     (if coefficients p = [] then None
      else if x = 0 then Some (coefficients p ! 0)
      else (let degree = length (coefficients p) - 1
            in Some (horner (coefficients p) x degree (coefficients p ! degree))))"

section \<open>Interpolation\<close>

text \<open>
  The inner loop over \<open>j\<close> and the outer loop over \<open>i\<close> of \<open>interpolatePolynomial\<close>,
  each over the indices still to visit. \<open>None\<close> is a panic: the one of \<open>div\<close>, or
  an index beyond \<open>y_samples\<close>.
\<close>

fun basisLoop :: "uint16 list \<Rightarrow> uint16 \<Rightarrow> nat \<Rightarrow> nat list \<Rightarrow> uint16 \<Rightarrow> uint16 option" where
  "basisLoop x_samples x i [] basis = Some basis"
| "basisLoop x_samples x i (j # js) basis =
     (if i = j then basisLoop x_samples x i js basis
      else (case div_gf (add x (x_samples ! j)) (add (x_samples ! i) (x_samples ! j)) of
              None \<Rightarrow> None
            | Some term \<Rightarrow> basisLoop x_samples x i js (mult basis term)))"

fun interpLoop :: "uint16 list \<Rightarrow> uint16 list \<Rightarrow> uint16 \<Rightarrow> nat list \<Rightarrow> uint16 \<Rightarrow> uint16 option" where
  "interpLoop x_samples y_samples x [] result = Some result"
| "interpLoop x_samples y_samples x (i # is) result =
     (case basisLoop x_samples x i [0..<length x_samples] 1 of
        None \<Rightarrow> None
      | Some basis \<Rightarrow>
          if length y_samples \<le> i then None
          else interpLoop x_samples y_samples x is (add result (mult (y_samples ! i) basis)))"

definition interpolatePolynomial :: "uint16 list \<Rightarrow> uint16 list \<Rightarrow> uint16 \<Rightarrow> uint16 option" where
  "interpolatePolynomial x_samples y_samples x =
     interpLoop x_samples y_samples x [0..<length x_samples] 0"

section \<open>Split and Combine\<close>

datatype error =
    PartsLessThanThreshold | PartsExceedLimit | ThresholdTooSmall | EmptySecret | OddLengthSecret
  | PolynomialFailed io_error
  | TooFewParts | PartsTooShort | OddLengthParts | LengthMismatch | DuplicatePart

text \<open>
  What a call of \<open>Split\<close> has done besides computing: how often it has called
  \<open>rand.Read\<close> and how many output shares it has allocated.
\<close>

record effects =
  rand_reads :: nat
  shares_allocated :: nat

text \<open>The loop \<open>for i := 0; i < parts; i++\<close> that fills column \<open>idx\<close> of \<open>out16\<close>.\<close>

fun evalLoop :: "polynomial \<Rightarrow> nat \<Rightarrow> nat list \<Rightarrow> uint16 list list \<Rightarrow> uint16 list list option" where
  "evalLoop p idx [] out16 = Some out16"
| "evalLoop p idx (i # is) out16 =
     (case evaluate p (word_of_nat i + 1) of
        None \<Rightarrow> None
      | Some y \<Rightarrow> evalLoop p idx is (out16[i := (out16 ! i)[idx := y]]))"

text \<open>The loop \<open>for idx, val := range secret16\<close>, over the words still to share.\<close>

fun splitLoop ::
  "rand_source \<Rightarrow> int \<Rightarrow> int \<Rightarrow> (nat \<times> uint16) list \<Rightarrow> uint16 list list \<Rightarrow> effects
     \<Rightarrow> (error + uint16 list list) option \<times> effects" where
  "splitLoop rnd parts threshold [] out16 fx = (Some (Inr out16), fx)"
| "splitLoop rnd parts threshold ((idx, val) # rest) out16 fx =
     (case makePolynomial rnd (rand_reads fx) val (word_of_int (threshold - 1)) of
        Inl e \<Rightarrow> (Some (Inl (PolynomialFailed e)), fx\<lparr>rand_reads := rand_reads fx + 1\<rparr>)
      | Inr p \<Rightarrow>
          (case evalLoop p idx [0..<nat parts] out16 of
             None \<Rightarrow> (None, fx\<lparr>rand_reads := rand_reads fx + 1\<rparr>)
           | Some out16' \<Rightarrow>
               splitLoop rnd parts threshold rest out16' (fx\<lparr>rand_reads := rand_reads fx + 1\<rparr>)))"

text \<open>
  \<open>Split\<close>. The result is \<open>None\<close> for a panic, \<open>Some (Inl e)\<close> for a returned error and
  \<open>Some (Inr out)\<close> for the shares.
\<close>

definition Split ::
  "byte list \<Rightarrow> int \<Rightarrow> int \<Rightarrow> rand_source \<Rightarrow> (error + byte list list) option \<times> effects" where
  "Split secret parts threshold rnd =
     (if parts < threshold then (Some (Inl PartsLessThanThreshold), \<lparr>rand_reads = 0, shares_allocated = 0\<rparr>)
      else if parts > MaxPartsGF16 then (Some (Inl PartsExceedLimit), \<lparr>rand_reads = 0, shares_allocated = 0\<rparr>)
      else if threshold < 2 then (Some (Inl ThresholdTooSmall), \<lparr>rand_reads = 0, shares_allocated = 0\<rparr>)
      else if length secret = 0 then (Some (Inl EmptySecret), \<lparr>rand_reads = 0, shares_allocated = 0\<rparr>)
      else if length secret mod 2 \<noteq> 0 then (Some (Inl OddLengthSecret), \<lparr>rand_reads = 0, shares_allocated = 0\<rparr>)
      else
        (let secret16 = byteToUint16 secret;
             out16 = map (\<lambda>idx. (replicate (length secret16 + 1) 0)[length secret16 := word_of_nat idx + 1])
                       [0..<nat parts]
         in case splitLoop rnd parts threshold (enumerate 0 secret16) out16
                   \<lparr>rand_reads = 0, shares_allocated = nat parts\<rparr> of
              (None, fx) \<Rightarrow> (None, fx)
            | (Some (Inl e), fx) \<Rightarrow> (Some (Inl e), fx)
            | (Some (Inr out16'), fx) \<Rightarrow> (Some (Inr (map uint16ToByte out16')), fx)))"

text \<open>
  The loop of \<open>Combine\<close> that collects the x value of every part and looks it up in
  \<open>checkMap\<close>.
\<close>

fun sampleLoop :: "uint16 list list \<Rightarrow> (uint16 \<rightharpoonup> unit) \<Rightarrow> uint16 list \<Rightarrow> error + uint16 list" where
  "sampleLoop [] checkMap x_samples = Inr x_samples"
| "sampleLoop (part # rest) checkMap x_samples =
     (let samp = part ! (length part - 1)
      in if checkMap samp \<noteq> None then Inl DuplicatePart
         else sampleLoop rest (checkMap(samp \<mapsto> ())) (x_samples @ [samp]))"

text \<open>
  \<open>Combine\<close>. Every word is interpolated in a goroutine of its own, and the results
  come back over a channel together with their word index, each to be stored at that
  index; the array they fill is the same for every order of arrival, and it is what the
  model computes. A panic in one of the goroutines ends the process: \<open>None\<close>.
\<close>

definition Combine :: "byte list list \<Rightarrow> (error + byte list) option" where
  "Combine parts =
     (if length parts < 2 then Some (Inl TooFewParts)
      else
        (let firstPartLen = length (parts ! 0)
         in if firstPartLen < 4 then Some (Inl PartsTooShort)
            else if firstPartLen mod 2 = 1 then Some (Inl OddLengthParts)
            else if list_ex (\<lambda>part. length part \<noteq> firstPartLen) (drop 1 parts) then Some (Inl LengthMismatch)
            else
              (let parts16 = map byteToUint16 parts
               in case sampleLoop parts16 Map.empty [] of
                    Inl e \<Rightarrow> Some (Inl e)
                  | Inr x_samples \<Rightarrow>
                      (case those (map (\<lambda>idx. interpolatePolynomial x_samples
                                                 (map (\<lambda>part. part ! idx) parts16) 0)
                                     [0..<length (parts16 ! 0) - 1]) of
                         None \<Rightarrow> None
                       | Some secret16 \<Rightarrow> Some (Inr (uint16ToByte secret16))))))"

section \<open>Notions used in the statements and proofs\<close>

text \<open>The ordered validation table of the spec (4.5).\<close>

definition first_violation :: "byte list \<Rightarrow> int \<Rightarrow> int \<Rightarrow> error option" where
  "first_violation secret N T =
     (if \<not> N \<ge> T then Some PartsLessThanThreshold
      else if \<not> N \<le> 65535 then Some PartsExceedLimit
      else if \<not> T \<ge> 2 then Some ThresholdTooSmall
      else if \<not> length secret > 0 then Some EmptySecret
      else if \<not> even (length secret) then Some OddLengthSecret
      else None)"

text \<open>
  The value \<open>evaluate\<close> returns for a polynomial with the coefficients \<open>cs\<close>, and the
  state of \<open>out16\<close> after column \<open>idx\<close> has been filled for the share indices \<open>is\<close>.
\<close>

definition evalc :: "uint16 list \<Rightarrow> uint16 \<Rightarrow> uint16" where
  "evalc cs x = (if x = 0 then cs ! 0 else horner cs x (length cs - 1) (cs ! (length cs - 1)))"

definition fillColumn :: "uint16 list \<Rightarrow> nat \<Rightarrow> nat list \<Rightarrow> uint16 list list \<Rightarrow> uint16 list list" where
  "fillColumn cs idx is out16 =
     fold (\<lambda>i out. out[i := (out ! i)[idx := evalc cs (word_of_nat i + 1)]]) is out16"

text \<open>A randomness source that never fails.\<close>

definition rand_ok :: "rand_source \<Rightarrow> bool" where
  "rand_ok rnd \<longleftrightarrow> (\<forall>k. \<exists>f. rnd k = Inr f)"

subsection \<open>The field GF(2^16)\<close>

text \<open>
  Field elements as a type of their own, so that sums, products and powers of the
  library can be used on them. Addition is \<open>add\<close>, multiplication is the generator's
  \<open>multiplyGF16\<close>; \<open>mult\<close> and \<open>div\<close> are shown below to compute the same product and
  quotient from the tables.
\<close>

datatype gf16 = GF (rep: uint16)

instantiation gf16 :: "{zero, one, plus, minus, uminus, times, power}"
begin
definition zero_gf16 :: gf16 where "zero_gf16 = GF 0"
definition one_gf16 :: gf16 where "one_gf16 = GF 1"
definition plus_gf16 :: "gf16 \<Rightarrow> gf16 \<Rightarrow> gf16" where "plus_gf16 a b = GF (add (rep a) (rep b))"
definition minus_gf16 :: "gf16 \<Rightarrow> gf16 \<Rightarrow> gf16" where "minus_gf16 a b = GF (add (rep a) (rep b))"
definition uminus_gf16 :: "gf16 \<Rightarrow> gf16" where "uminus_gf16 a = a"
definition times_gf16 :: "gf16 \<Rightarrow> gf16 \<Rightarrow> gf16" where
  "times_gf16 a b = GF (multiplyGF16 (rep a) (rep b))"
instance ..
end

instantiation gf16 :: inverse
begin
definition inverse_gf16 :: "gf16 \<Rightarrow> gf16" where "inverse_gf16 a = a ^ 65534"
definition divide_gf16 :: "gf16 \<Rightarrow> gf16 \<Rightarrow> gf16" where "divide_gf16 a b = a * b ^ 65534"
instance ..
end

instance gf16 :: ab_group_add
  by standard (simp_all add: zero_gf16_def plus_gf16_def uminus_gf16_def minus_gf16_def add_def ac_simps)

text \<open>
  One round of \<open>multiplyGF16\<close> on \<open>a\<close> (multiplication by the polynomial x), and
  the sum of the terms \<open>f i\<close> over the bits \<open>i\<close> that are set in \<open>b\<close>.
\<close>

definition xtime :: "uint16 \<Rightarrow> uint16" where
  "xtime a = (if a > 0x7FFF then push_bit 1 a XOR 0x100B else push_bit 1 a)"

primrec xt :: "gf16 \<Rightarrow> gf16" where "xt (GF a) = GF (xtime a)"

definition bsum :: "uint16 \<Rightarrow> (nat \<Rightarrow> gf16) \<Rightarrow> gf16" where
  "bsum b f = (\<Sum>i<16. if bit b i then f i else 0)"

text \<open>The product, under a name of its own for the lemmas that lead to the ring laws.\<close>

definition gmul :: "gf16 \<Rightarrow> gf16 \<Rightarrow> gf16" where
  "gmul a b = a * b"

text \<open>The generator of the source as a field element.\<close>

abbreviation gen :: gf16 where "gen \<equiv> GF 257"

subsection \<open>The run of the table generator\<close>

text \<open>The state of the generator's loop after \<open>k\<close> rounds.\<close>

fun logAfter :: "nat \<Rightarrow> uint16 list" where
  "logAfter 0 = (replicate 65536 0)[257 := 1]"
| "logAfter (Suc k) = (logAfter k)[unat (rep (gen ^ (k + 2))) := word_of_nat (k + 2)]"

definition stateAfter :: "nat \<Rightarrow> gen_state" where
  "stateAfter k = (rep (gen ^ (k + 1)), map (\<lambda>i. rep (gen ^ i)) [0..<k + 2], logAfter k, int k + 2)"

text \<open>Powers in the field, by the generator's multiplication.\<close>

primrec gfpow :: "uint16 \<Rightarrow> nat \<Rightarrow> uint16" where
  "gfpow g 0 = 1"
| "gfpow g (Suc n) = multiplyGF16 g (gfpow g n)"

subsection \<open>Interpolation and Combine\<close>

text \<open>The trailing big-endian 16-bit word of a part.\<close>

definition xtag :: "byte list \<Rightarrow> uint16" where
  "xtag part = push_bit 8 (ucast (part ! (length part - 2))) OR ucast (part ! (length part - 1))"

text \<open>
  Lagrange interpolation in a field: the basis polynomial of the sample point \<open>xi\<close>
  among the points \<open>xs\<close>, and the interpolant of the samples \<open>pts\<close>, both at \<open>t\<close>.
\<close>

definition lbasis :: "'a::field list \<Rightarrow> 'a \<Rightarrow> 'a \<Rightarrow> 'a" where
  "lbasis xs xi t = (\<Prod>x'\<leftarrow>filter (\<lambda>x'. x' \<noteq> xi) xs. (t - x') / (xi - x'))"

definition lagrange :: "('a::field \<times> 'a) list \<Rightarrow> 'a \<Rightarrow> 'a" where
  "lagrange pts t = (\<Sum>(x, y)\<leftarrow>pts. y * lbasis (map fst pts) x t)"

text \<open>
  The x value of a part in words, the sample points that \<open>Combine\<close> interpolates
  for word \<open>k\<close>, and the condition under which the spec has it reject its input.
\<close>

definition tag16 :: "uint16 list \<Rightarrow> uint16" where
  "tag16 part = part ! (length part - 1)"

definition points :: "uint16 list list \<Rightarrow> nat \<Rightarrow> (gf16 \<times> gf16) list" where
  "points parts16 k = map (\<lambda>part. (GF (tag16 part), GF (part ! k))) parts16"

definition rejected :: "byte list list \<Rightarrow> bool" where
  "rejected parts \<longleftrightarrow>
     length parts < 2
     \<or> (\<exists>p\<in>set parts. \<exists>q\<in>set parts. length p \<noteq> length q)
     \<or> length (hd parts) < 4 \<or> odd (length (hd parts))
     \<or> \<not> distinct (map xtag parts)"

subsection \<open>The shares of Split\<close>

text \<open>
  The coefficients of the polynomial that \<open>Split\<close> draws for word \<open>k\<close> with value
  \<open>val\<close>, and row \<open>i\<close> of \<open>out16\<close> when the first \<open>k\<close> words have been shared.
\<close>

definition shareCoeffs :: "rand_source \<Rightarrow> int \<Rightarrow> nat \<Rightarrow> uint16 \<Rightarrow> uint16 list" where
  "shareCoeffs rnd threshold k val =
     (case rnd k of
        Inl e \<Rightarrow> [val]
      | Inr f \<Rightarrow> val # byteToUint16 (map f [0..<unat (word_of_int (threshold - 1) * 2 :: uint16)]))"

definition shareRow :: "rand_source \<Rightarrow> int \<Rightarrow> uint16 list \<Rightarrow> nat \<Rightarrow> nat \<Rightarrow> uint16 list" where
  "shareRow rnd threshold secret16 k i =
     map (\<lambda>j. evalc (shareCoeffs rnd threshold j (secret16 ! j)) (word_of_nat i + 1)) [0..<k]
     @ replicate (length secret16 - k) 0 @ [word_of_nat i + 1]"

subsection \<open>Polynomials\<close>

text \<open>
  Polynomials over a field as coefficient lists, lowest degree first: the value at
  \<open>x\<close>, the sum of two polynomials and the quotient of the division by \<open>x - a\<close>.
\<close>

fun peval :: "'a::field list \<Rightarrow> 'a \<Rightarrow> 'a" where
  "peval [] x = 0"
| "peval (c # cs) x = c + x * peval cs x"

fun padd :: "'a::field list \<Rightarrow> 'a list \<Rightarrow> 'a list" where
  "padd [] q = q"
| "padd p [] = p"
| "padd (a # p) (b # q) = (a + b) # padd p q"

fun pdiv :: "'a::field list \<Rightarrow> 'a \<Rightarrow> 'a list" where
  "pdiv [] a = []"
| "pdiv [c] a = []"
| "pdiv (c # cs) a = peval cs a # pdiv cs a"


section \<open>multiplyGF16 is the multiplication of a commutative ring\<close>

text \<open>
  The loop of \<open>multiplyGF16\<close> adds up, over the bits \<open>i\<close> that are set in \<open>b\<close>, the
  word \<open>a\<close> after \<open>i\<close> rounds of \<open>xtime\<close>. A round of \<open>xtime\<close> is linear, every word is
  the sum of its bits, and the bit \<open>2 ^ j\<close> is the word 1 after \<open>j\<close> rounds. So the
  product is a double sum over the bits of \<open>a\<close> and \<open>b\<close> that is symmetric in the two,
  and the laws of a commutative ring follow.
\<close>

lemma GF_plus: "GF a + GF b = GF (a XOR b)" by (simp add: plus_gf16_def add_def)
lemma gf_self_add [simp]: "(a::gf16) + a = 0" by (simp add: plus_gf16_def zero_gf16_def add_def)
lemma gf_uminus [simp]: "- (a::gf16) = a" by (simp add: uminus_gf16_def)
lemma gf_minus: "(a::gf16) - b = a + b" by (simp add: plus_gf16_def minus_gf16_def)

lemma msb_iff: "(a::uint16) > 0x7FFF \<longleftrightarrow> bit a 15"
proof -
  have lt: "unat a < 65536" using unsigned_less[of a] by simp
  have "bit a 15 \<longleftrightarrow> bit (unat a) 15" by (simp add: bit_unsigned_iff)
  also have "\<dots> \<longleftrightarrow> odd (unat a div 32768)" by (simp add: bit_iff_odd)
  also have "\<dots> \<longleftrightarrow> unat a > 32767"
  proof (cases "unat a < 32768")
    case True
    then show ?thesis by simp
  next
    case False
    then have "unat a div 32768 = 1"
      using lt by (intro div_nat_eqI) simp_all
    with False show ?thesis by simp
  qed
  also have "\<dots> \<longleftrightarrow> a > 0x7FFF" by (simp add: word_less_nat_alt)
  finally show ?thesis by simp
qed

lemma xtime_xor: "xtime (a XOR b) = xtime a XOR xtime b"
  unfolding xtime_def msb_iff
  by (simp add: bit_xor_iff push_bit_xor ac_simps)

lemma xtime_0 [simp]: "xtime 0 = 0" by (simp add: xtime_def)

lemma xt_add: "xt (a + b) = xt a + xt b"
  by (cases a; cases b) (simp add: GF_plus xtime_xor)

lemma xt_0 [simp]: "xt 0 = 0" by (simp add: zero_gf16_def)

lemma xt_pow_add: "(xt ^^ n) (a + b) = (xt ^^ n) a + (xt ^^ n) b"
  by (induction n) (simp_all add: xt_add)

lemma xt_pow_0 [simp]: "(xt ^^ n) 0 = 0"
  by (induction n) simp_all

lemma xt_pow_sum: "(xt ^^ n) (sum f S) = (\<Sum>i\<in>S. (xt ^^ n) (f i))"
  by (induction S rule: infinite_finite_induct) (simp_all add: xt_pow_add)

lemma xt_pow_xtime: "(xt ^^ i) (GF (xtime a)) = (xt ^^ Suc i) (GF a)"
  by (simp add: funpow_swap1)

lemma mulloop_sum: "GF (mulloop a b p) = GF p + bsum b (\<lambda>i. (xt ^^ i) (GF a))"
proof (induction a b p rule: mulloop.induct)
  case (1 a b p)
  show ?case
  proof (cases "a > 0 \<and> b > 0")
    case True
    let ?a' = "xtime a" and ?b' = "drop_bit 1 b" and ?p' = "if b mod 2 = 1 then p XOR a else p"
    have "GF (mulloop a b p) = GF (mulloop ?a' ?b' ?p')"
      using True by (subst mulloop.simps) (simp add: xtime_def)
    also have "\<dots> = GF ?p' + bsum ?b' (\<lambda>i. (xt ^^ i) (GF ?a'))"
      using "1.IH"[OF True] by (simp add: xtime_def)
    also have "bsum ?b' (\<lambda>i. (xt ^^ i) (GF ?a')) = (\<Sum>i<16. if bit b (Suc i) then (xt ^^ Suc i) (GF a) else 0)"
      by (simp add: bsum_def bit_drop_bit_eq xt_pow_xtime del: funpow.simps)
    also have "\<dots> = (\<Sum>i<15. if bit b (Suc i) then (xt ^^ Suc i) (GF a) else 0)"
    proof -
      have "\<not> bit b 16" using bit_imp_le_length[of b 16] by auto
      then show ?thesis
        using sum.lessThan_Suc[of "\<lambda>i. if bit b (Suc i) then (xt ^^ Suc i) (GF a) else 0" 15]
        by (simp del: funpow.simps sum.lessThan_Suc)
    qed
    also have "GF ?p' = GF p + (if bit b 0 then GF a else 0)"
      by (simp add: bit_0 odd_iff_mod_2_eq_one GF_plus)
    finally have "GF (mulloop a b p) = GF p + ((if bit b 0 then (xt ^^ 0) (GF a) else 0)
        + (\<Sum>i<15. if bit b (Suc i) then (xt ^^ Suc i) (GF a) else 0))"
      by (simp add: add.assoc del: funpow.simps)
    also have "(if bit b 0 then (xt ^^ 0) (GF a) else 0)
        + (\<Sum>i<15. if bit b (Suc i) then (xt ^^ Suc i) (GF a) else 0) = bsum b (\<lambda>i. (xt ^^ i) (GF a))"
      unfolding bsum_def
      using sum.lessThan_Suc_shift[of "\<lambda>i. if bit b i then (xt ^^ i) (GF a) else 0" 15]
      by (simp del: funpow.simps sum.lessThan_Suc)
    finally show ?thesis .
  next
    case False
    then have "a = 0 \<or> b = 0" by (auto simp: word_greater_zero_iff)
    then have "bsum b (\<lambda>i. (xt ^^ i) (GF a)) = 0"
    proof
      assume "a = 0"
      then have "GF a = 0" by (simp add: zero_gf16_def)
      then show ?thesis by (simp add: bsum_def del: funpow.simps)
    next
      assume "b = 0"
      then show ?thesis by (simp add: bsum_def)
    qed
    moreover have "mulloop a b p = p" by (subst mulloop.simps) (simp only: False if_False)
    ultimately show ?thesis by simp
  qed
qed


lemma gmul_sum: "gmul a b = bsum (rep b) (\<lambda>i. (xt ^^ i) a)"
  using mulloop_sum[of "rep a" "rep b" 0]
  by (simp add: gmul_def times_gf16_def multiplyGF16_def zero_gf16_def[symmetric])

lemma bsum_add: "bsum b (\<lambda>i. f i + g i) = bsum b f + bsum b g"
  unfolding bsum_def by (simp add: sum.distrib[symmetric] if_distrib[of "\<lambda>x. x + _"] cong: if_cong)

lemma gmul_add_left: "gmul (a + a') b = gmul a b + gmul a' b"
  by (simp add: gmul_sum xt_pow_add bsum_add)

lemma gmul_0_left [simp]: "gmul 0 b = 0"
  by (simp add: gmul_sum bsum_def)

lemma gmul_sum_left: "gmul (sum f S) b = (\<Sum>i\<in>S. gmul (f i) b)"
  by (induction S rule: infinite_finite_induct) (simp_all add: gmul_add_left)

lemma take_bit_Suc_xor:
  "take_bit (Suc n) (a::uint16) = take_bit n a XOR (if bit a n then 2 ^ n else 0)"
  by (rule bit_eqI) (auto simp: bit_simps less_Suc_eq)

lemma basis_take_bit:
  "(\<Sum>j<n. if bit a j then GF (2 ^ j) else 0) = GF (take_bit n a)"
proof (induction n)
  case 0
  show ?case by (simp add: zero_gf16_def)
next
  case (Suc n)
  show ?case
    by (simp add: Suc take_bit_Suc_xor GF_plus zero_gf16_def del: take_bit_Suc)
qed

lemma basis_decomp: "bsum (rep a) (\<lambda>j. GF (2 ^ j)) = a"
proof -
  have "take_bit 16 (rep a) = rep a" by (simp add: take_bit_word_eq_self)
  then show ?thesis
    unfolding bsum_def basis_take_bit by simp
qed


lemma xtime_pow2: "j < 15 \<Longrightarrow> xtime (2 ^ j) = 2 ^ Suc j"
  by (simp add: xtime_def msb_iff bit_exp_iff push_bit_eq_mult)

lemma xt_pow_one: "j < 16 \<Longrightarrow> (xt ^^ j) (GF 1) = GF (2 ^ j)"
  by (induction j) (simp_all add: xtime_pow2 del: power_Suc)

lemma bsum_cong: "(\<And>i. i < 16 \<Longrightarrow> f i = g i) \<Longrightarrow> bsum b f = bsum b g"
  unfolding bsum_def by (intro sum.cong) auto

lemma basis_decomp_xt: "bsum (rep a) (\<lambda>j. (xt ^^ j) (GF 1)) = a"
  using basis_decomp[of a] bsum_cong[of "\<lambda>j. (xt ^^ j) (GF 1)" "\<lambda>j. GF (2 ^ j)" "rep a"]
  by (simp add: xt_pow_one)

lemma xt_pow_bsum: "(xt ^^ n) (bsum b f) = bsum b (\<lambda>i. (xt ^^ n) (f i))"
  unfolding bsum_def xt_pow_sum
  by (intro sum.cong) (auto simp del: funpow.simps)

lemma xt_pow_decomp: "(xt ^^ i) a = bsum (rep a) (\<lambda>j. (xt ^^ (i + j)) (GF 1))"
proof -
  have "(xt ^^ i) a = (xt ^^ i) (bsum (rep a) (\<lambda>j. (xt ^^ j) (GF 1)))"
    by (simp only: basis_decomp_xt)
  also have "\<dots> = bsum (rep a) (\<lambda>j. (xt ^^ i) ((xt ^^ j) (GF 1)))"
    by (rule xt_pow_bsum)
  also have "\<dots> = bsum (rep a) (\<lambda>j. (xt ^^ (i + j)) (GF 1))"
    by (simp only: funpow_add o_apply)
  finally show ?thesis .
qed

lemma gmul_double:
  "gmul a b = (\<Sum>i<16. \<Sum>j<16. if bit (rep b) i \<and> bit (rep a) j then (xt ^^ (i + j)) (GF 1) else 0)"
proof -
  have "gmul a b = (\<Sum>i<16. if bit (rep b) i then bsum (rep a) (\<lambda>j. (xt ^^ (i + j)) (GF 1)) else 0)"
    unfolding gmul_sum bsum_def[of "rep b"]
    by (intro sum.cong refl, subst xt_pow_decomp[of _ a], rule refl)
  also have "\<dots> = (\<Sum>i<16. \<Sum>j<16. if bit (rep b) i \<and> bit (rep a) j then (xt ^^ (i + j)) (GF 1) else 0)"
    unfolding bsum_def by (intro sum.cong refl) (simp del: funpow.simps)
  finally show ?thesis .
qed

lemma gmul_commute: "gmul a b = gmul b a"
  unfolding gmul_double
  by (subst sum.swap) (simp only: add.commute conj_commute)

lemma gmul_add_right: "gmul a (b + b') = gmul a b + gmul a b'"
  using gmul_add_left[of b b' a] by (simp only: gmul_commute[of a])

lemma gmul_one_right: "gmul a (GF 1) = a"
proof -
  have "(\<Sum>i<16. if i = 0 then (xt ^^ i) a else 0) = a"
    by (subst sum.delta) simp_all
  then show ?thesis
    by (simp add: gmul_sum bsum_def bit_1_iff del: funpow.simps)
qed

lemma xt_pow_gmul: "(xt ^^ k) (gmul a b) = gmul ((xt ^^ k) a) b"
proof -
  have "(xt ^^ k) (gmul a b) = bsum (rep b) (\<lambda>i. (xt ^^ k) ((xt ^^ i) a))"
    unfolding gmul_sum by (rule xt_pow_bsum)
  also have "\<dots> = bsum (rep b) (\<lambda>i. (xt ^^ i) ((xt ^^ k) a))"
    by (simp only: funpow_add[symmetric, unfolded o_def, THEN fun_cong] add.commute)
  finally show ?thesis by (simp only: gmul_sum)
qed

lemma gmul_swap_right: "gmul (gmul a b) c = gmul (gmul a c) b"
proof -
  have "gmul (gmul a b) c = (\<Sum>k<16. if bit (rep c) k then gmul ((xt ^^ k) a) b else 0)"
    unfolding gmul_sum[of "gmul a b" c] bsum_def xt_pow_gmul ..
  also have "\<dots> = (\<Sum>k<16. gmul (if bit (rep c) k then (xt ^^ k) a else 0) b)"
    by (intro sum.cong refl) simp
  also have "\<dots> = gmul (gmul a c) b"
    unfolding gmul_sum_left[symmetric] by (simp only: gmul_sum[of a c] bsum_def)
  finally show ?thesis .
qed

lemma gmul_assoc: "gmul (gmul a b) c = gmul a (gmul b c)"
proof -
  have "gmul a (gmul b c) = gmul (gmul b c) a" by (rule gmul_commute)
  also have "\<dots> = gmul (gmul b a) c" by (rule gmul_swap_right)
  also have "\<dots> = gmul (gmul a b) c" by (simp only: gmul_commute[of b a])
  finally show ?thesis by simp
qed

instance gf16 :: comm_ring_1
proof
  fix a b c :: gf16
  show "a * b * c = a * (b * c)" using gmul_assoc[of a b c] by (simp add: gmul_def)
  show "a * b = b * a" using gmul_commute[of a b] by (simp add: gmul_def)
  show "1 * a = a" using gmul_one_right[of a] gmul_commute[of "GF 1" a] by (simp add: gmul_def one_gf16_def)
  show "(a + b) * c = a * c + b * c" using gmul_add_left[of a b c] by (simp add: gmul_def)
  show "(0::gf16) \<noteq> 1" by (simp add: zero_gf16_def one_gf16_def)
qed

section \<open>The generator 257 has order 65535\<close>

text \<open>
  An exponent \<open>d\<close> below 65535 with \<open>gen ^ d = 1\<close> would make \<open>gen ^ e = 1\<close> for
  \<open>e = gcd d 65535\<close>, a proper divisor of 65535 = 3 * 5 * 17 * 257, and so for one of the
  exponents 21845, 13107, 3855 and 255; but none of these powers is 1, while the power
  with exponent 65535 is.
\<close>

text \<open>
  Powers of the generator by repeated squaring, each product evaluated on the code of
  \<open>multiplyGF16\<close>.
\<close>

lemma gf_times: "GF a * GF b = GF (mulloop a b 0)"
  by (simp add: times_gf16_def multiplyGF16_def)

lemma gen_pow_1: "GF 257 ^ 1 = GF 257"
  by simp

lemma gen_pow_2: "GF 257 ^ 2 = GF 4106"
  by (simp add: power2_eq_square gf_times mulloop.simps)

lemma gen_pow_3: "GF 257 ^ 3 = GF 2737"
  using power_Suc [of "GF 257" 2] by (simp add: gen_pow_2 gf_times mulloop.simps)

lemma gen_pow_7: "GF 257 ^ 7 = GF 46108"
  using power_add [of "GF 257" 3 3] power_Suc [of "GF 257" 6] by (simp add: gen_pow_3 gf_times mulloop.simps)

lemma gen_pow_15: "GF 257 ^ 15 = GF 59978"
  using power_add [of "GF 257" 7 7] power_Suc [of "GF 257" 14] by (simp add: gen_pow_7 gf_times mulloop.simps)

lemma gen_pow_31: "GF 257 ^ 31 = GF 45613"
  using power_add [of "GF 257" 15 15] power_Suc [of "GF 257" 30] by (simp add: gen_pow_15 gf_times mulloop.simps)

lemma gen_pow_63: "GF 257 ^ 63 = GF 11180"
  using power_add [of "GF 257" 31 31] power_Suc [of "GF 257" 62] by (simp add: gen_pow_31 gf_times mulloop.simps)

lemma gen_pow_127: "GF 257 ^ 127 = GF 65250"
  using power_add [of "GF 257" 63 63] power_Suc [of "GF 257" 126] by (simp add: gen_pow_63 gf_times mulloop.simps)

lemma gen_pow_255: "GF 257 ^ 255 = GF 4072"
  using power_add [of "GF 257" 127 127] power_Suc [of "GF 257" 254] by (simp add: gen_pow_127 gf_times mulloop.simps)

lemma gen_pow_511: "GF 257 ^ 511 = GF 21597"
  using power_add [of "GF 257" 255 255] power_Suc [of "GF 257" 510] by (simp add: gen_pow_255 gf_times mulloop.simps)

lemma gen_pow_1023: "GF 257 ^ 1023 = GF 65524"
  using power_add [of "GF 257" 511 511] power_Suc [of "GF 257" 1022] by (simp add: gen_pow_511 gf_times mulloop.simps)

lemma gen_pow_2047: "GF 257 ^ 2047 = GF 327"
  using power_add [of "GF 257" 1023 1023] power_Suc [of "GF 257" 2046] by (simp add: gen_pow_1023 gf_times mulloop.simps)

lemma gen_pow_4095: "GF 257 ^ 4095 = GF 7710"
  using power_add [of "GF 257" 2047 2047] power_Suc [of "GF 257" 4094] by (simp add: gen_pow_2047 gf_times mulloop.simps)

lemma gen_pow_8191: "GF 257 ^ 8191 = GF 7372"
  using power_add [of "GF 257" 4095 4095] power_Suc [of "GF 257" 8190] by (simp add: gen_pow_4095 gf_times mulloop.simps)

lemma gen_pow_16383: "GF 257 ^ 16383 = GF 9556"
  using power_add [of "GF 257" 8191 8191] power_Suc [of "GF 257" 16382] by (simp add: gen_pow_8191 gf_times mulloop.simps)

lemma gen_pow_32767: "GF 257 ^ 32767 = GF 45060"
  using power_add [of "GF 257" 16383 16383] power_Suc [of "GF 257" 32766] by (simp add: gen_pow_16383 gf_times mulloop.simps)

lemma gen_pow_65535: "GF 257 ^ 65535 = GF 1"
  using power_add [of "GF 257" 32767 32767] power_Suc [of "GF 257" 65534] by (simp add: gen_pow_32767 gf_times mulloop.simps)

lemma gen_pow_30: "GF 257 ^ 30 = GF 22825"
  using power_add [of "GF 257" 15 15] by (simp add: gen_pow_15 gf_times mulloop.simps)

lemma gen_pow_60: "GF 257 ^ 60 = GF 59046"
  using power_add [of "GF 257" 30 30] by (simp add: gen_pow_30 gf_times mulloop.simps)

lemma gen_pow_120: "GF 257 ^ 120 = GF 24366"
  using power_add [of "GF 257" 60 60] by (simp add: gen_pow_60 gf_times mulloop.simps)

lemma gen_pow_240: "GF 257 ^ 240 = GF 46628"
  using power_add [of "GF 257" 120 120] by (simp add: gen_pow_120 gf_times mulloop.simps)

lemma gen_pow_481: "GF 257 ^ 481 = GF 53741"
  using power_add [of "GF 257" 240 240] power_Suc [of "GF 257" 480] by (simp add: gen_pow_240 gf_times mulloop.simps)

lemma gen_pow_963: "GF 257 ^ 963 = GF 2511"
  using power_add [of "GF 257" 481 481] power_Suc [of "GF 257" 962] by (simp add: gen_pow_481 gf_times mulloop.simps)

lemma gen_pow_1927: "GF 257 ^ 1927 = GF 37028"
  using power_add [of "GF 257" 963 963] power_Suc [of "GF 257" 1926] by (simp add: gen_pow_963 gf_times mulloop.simps)

lemma gen_pow_3855: "GF 257 ^ 3855 = GF 18389"
  using power_add [of "GF 257" 1927 1927] power_Suc [of "GF 257" 3854] by (simp add: gen_pow_1927 gf_times mulloop.simps)

lemma gen_pow_6: "GF 257 ^ 6 = GF 18369"
  using power_add [of "GF 257" 3 3] by (simp add: gen_pow_3 gf_times mulloop.simps)

lemma gen_pow_12: "GF 257 ^ 12 = GF 47910"
  using power_add [of "GF 257" 6 6] by (simp add: gen_pow_6 gf_times mulloop.simps)

lemma gen_pow_25: "GF 257 ^ 25 = GF 43343"
  using power_add [of "GF 257" 12 12] power_Suc [of "GF 257" 24] by (simp add: gen_pow_12 gf_times mulloop.simps)

lemma gen_pow_51: "GF 257 ^ 51 = GF 33308"
  using power_add [of "GF 257" 25 25] power_Suc [of "GF 257" 50] by (simp add: gen_pow_25 gf_times mulloop.simps)

lemma gen_pow_102: "GF 257 ^ 102 = GF 53126"
  using power_add [of "GF 257" 51 51] by (simp add: gen_pow_51 gf_times mulloop.simps)

lemma gen_pow_204: "GF 257 ^ 204 = GF 26405"
  using power_add [of "GF 257" 102 102] by (simp add: gen_pow_102 gf_times mulloop.simps)

lemma gen_pow_409: "GF 257 ^ 409 = GF 52745"
  using power_add [of "GF 257" 204 204] power_Suc [of "GF 257" 408] by (simp add: gen_pow_204 gf_times mulloop.simps)

lemma gen_pow_819: "GF 257 ^ 819 = GF 3463"
  using power_add [of "GF 257" 409 409] power_Suc [of "GF 257" 818] by (simp add: gen_pow_409 gf_times mulloop.simps)

lemma gen_pow_1638: "GF 257 ^ 1638 = GF 585"
  using power_add [of "GF 257" 819 819] by (simp add: gen_pow_819 gf_times mulloop.simps)

lemma gen_pow_3276: "GF 257 ^ 3276 = GF 20589"
  using power_add [of "GF 257" 1638 1638] by (simp add: gen_pow_1638 gf_times mulloop.simps)

lemma gen_pow_6553: "GF 257 ^ 6553 = GF 4563"
  using power_add [of "GF 257" 3276 3276] power_Suc [of "GF 257" 6552] by (simp add: gen_pow_3276 gf_times mulloop.simps)

lemma gen_pow_13107: "GF 257 ^ 13107 = GF 7596"
  using power_add [of "GF 257" 6553 6553] power_Suc [of "GF 257" 13106] by (simp add: gen_pow_6553 gf_times mulloop.simps)

lemma gen_pow_5: "GF 257 ^ 5 = GF 17409"
  using power_add [of "GF 257" 2 2] power_Suc [of "GF 257" 4] by (simp add: gen_pow_2 gf_times mulloop.simps)

lemma gen_pow_10: "GF 257 ^ 10 = GF 47873"
  using power_add [of "GF 257" 5 5] by (simp add: gen_pow_5 gf_times mulloop.simps)

lemma gen_pow_21: "GF 257 ^ 21 = GF 63606"
  using power_add [of "GF 257" 10 10] power_Suc [of "GF 257" 20] by (simp add: gen_pow_10 gf_times mulloop.simps)

lemma gen_pow_42: "GF 257 ^ 42 = GF 2030"
  using power_add [of "GF 257" 21 21] by (simp add: gen_pow_21 gf_times mulloop.simps)

lemma gen_pow_85: "GF 257 ^ 85 = GF 35935"
  using power_add [of "GF 257" 42 42] power_Suc [of "GF 257" 84] by (simp add: gen_pow_42 gf_times mulloop.simps)

lemma gen_pow_170: "GF 257 ^ 170 = GF 52728"
  using power_add [of "GF 257" 85 85] by (simp add: gen_pow_85 gf_times mulloop.simps)

lemma gen_pow_341: "GF 257 ^ 341 = GF 32390"
  using power_add [of "GF 257" 170 170] power_Suc [of "GF 257" 340] by (simp add: gen_pow_170 gf_times mulloop.simps)

lemma gen_pow_682: "GF 257 ^ 682 = GF 35971"
  using power_add [of "GF 257" 341 341] by (simp add: gen_pow_341 gf_times mulloop.simps)

lemma gen_pow_1365: "GF 257 ^ 1365 = GF 25023"
  using power_add [of "GF 257" 682 682] power_Suc [of "GF 257" 1364] by (simp add: gen_pow_682 gf_times mulloop.simps)

lemma gen_pow_2730: "GF 257 ^ 2730 = GF 36873"
  using power_add [of "GF 257" 1365 1365] by (simp add: gen_pow_1365 gf_times mulloop.simps)

lemma gen_pow_5461: "GF 257 ^ 5461 = GF 20548"
  using power_add [of "GF 257" 2730 2730] power_Suc [of "GF 257" 5460] by (simp add: gen_pow_2730 gf_times mulloop.simps)

lemma gen_pow_10922: "GF 257 ^ 10922 = GF 40976"
  using power_add [of "GF 257" 5461 5461] by (simp add: gen_pow_5461 gf_times mulloop.simps)

lemma gen_pow_21845: "GF 257 ^ 21845 = GF 351"
  using power_add [of "GF 257" 10922 10922] power_Suc [of "GF 257" 21844] by (simp add: gen_pow_10922 gf_times mulloop.simps)

lemma no_divisors_3: "\<forall>c\<in>set [2..<3]. \<not> c dvd (3::nat)" by code_simp
lemma no_divisors_5: "\<forall>c\<in>set [2..<5]. \<not> c dvd (5::nat)" by code_simp
lemma no_divisors_17: "\<forall>c\<in>set [2..<17]. \<not> c dvd (17::nat)" by code_simp
lemma no_divisors_257: "\<forall>c\<in>set [2..<257]. \<not> c dvd (257::nat)" by code_simp

lemma not_coprime_dvd:
  fixes p q :: nat
  assumes nd: "\<forall>c\<in>set [2..<p]. \<not> c dvd p" and pos: "0 < p" and nc: "\<not> coprime q p"
  shows "p dvd q"
proof -
  let ?c = "gcd q p"
  have c1: "?c \<noteq> 1" using nc by (simp add: coprime_iff_gcd_eq_1)
  have c0: "?c \<noteq> 0" using pos by simp
  have cp: "?c dvd p" by simp
  then have "?c \<le> p" using pos by (simp add: dvd_imp_le)
  moreover have "\<not> ?c < p"
  proof
    assume "?c < p"
    moreover from c0 c1 have "2 \<le> ?c" by arith
    ultimately have "?c \<in> set [2..<p]" by simp
    with nd cp show False by blast
  qed
  ultimately have "?c = p" by simp
  then show ?thesis by (metis gcd_dvd1)
qed

lemma cofactor_cases:
  fixes e :: nat
  assumes "e dvd 65535" and "e \<noteq> 65535"
  shows "e dvd 21845 \<or> e dvd 13107 \<or> e dvd 3855 \<or> e dvd 255"
proof -
  from assms(1) obtain q where q: "65535 = e * q" by (auto simp: dvd_def)
  with assms(2) have q1: "q \<noteq> 1" by auto
  have qd: "q dvd 65535" unfolding q by (rule dvd_triv_right)
  have "\<not> (coprime q 3 \<and> coprime q 5 \<and> coprime q 17 \<and> coprime q 257)"
  proof
    assume "coprime q 3 \<and> coprime q 5 \<and> coprime q 17 \<and> coprime q 257"
    then have "coprime q (3 * (5 * (17 * 257)))" by (simp only: coprime_mult_right_iff)
    then have "coprime q 65535" by simp
    with qd have "q = 1" using coprime_common_divisor_nat[of q 65535 q] by simp
    with q1 show False by simp
  qed
  then consider "3 dvd q" | "5 dvd q" | "17 dvd q" | "257 dvd q"
    using not_coprime_dvd[OF no_divisors_3, of q] not_coprime_dvd[OF no_divisors_5, of q]
      not_coprime_dvd[OF no_divisors_17, of q] not_coprime_dvd[OF no_divisors_257, of q]
    by auto
  then show ?thesis
  proof cases
    case 1
    then obtain r where "q = 3 * r" by (auto simp: dvd_def)
    with q have "21845 = e * r" by simp
    then show ?thesis by (metis dvd_triv_left)
  next
    case 2
    then obtain r where "q = 5 * r" by (auto simp: dvd_def)
    with q have "13107 = e * r" by simp
    then show ?thesis by (metis dvd_triv_left)
  next
    case 3
    then obtain r where "q = 17 * r" by (auto simp: dvd_def)
    with q have "3855 = e * r" by simp
    then show ?thesis by (metis dvd_triv_left)
  next
    case 4
    then obtain r where "q = 257 * r" by (auto simp: dvd_def)
    with q have "255 = e * r" by simp
    then show ?thesis by (metis dvd_triv_left)
  qed
qed


lemma gen_pow_dvd_one: "gen ^ e = 1 \<Longrightarrow> e dvd n \<Longrightarrow> gen ^ n = 1"
  by (auto simp: dvd_def power_mult)

lemma gen_order:
  assumes "0 < d" and "d < 65535"
  shows "gen ^ d \<noteq> 1"
proof
  assume d1: "gen ^ d = 1"
  let ?e = "gcd d 65535"
  from assms(1) obtain x y where b: "d * x = 65535 * y + ?e"
    using bezout_nat[of d 65535] by auto
  have "gen ^ (d * x) = 1" using d1 by (simp add: power_mult)
  moreover have "gen ^ (65535 * y + ?e) = gen ^ ?e"
    by (simp add: power_add power_mult gen_pow_65535 one_gf16_def[symmetric])
  ultimately have e1: "gen ^ ?e = 1" using b by simp
  have "?e dvd 65535" by simp
  moreover have "?e \<noteq> 65535"
  proof -
    have "?e \<le> d" using assms(1) by (simp add: dvd_imp_le)
    with assms(2) show ?thesis by simp
  qed
  ultimately have "?e dvd 21845 \<or> ?e dvd 13107 \<or> ?e dvd 3855 \<or> ?e dvd 255"
    by (rule cofactor_cases)
  then have "gen ^ 21845 = 1 \<or> gen ^ 13107 = 1 \<or> gen ^ 3855 = 1 \<or> gen ^ 255 = 1"
    using gen_pow_dvd_one[OF e1] by blast
  then show False
    by (simp add: gen_pow_21845 gen_pow_13107 gen_pow_3855 gen_pow_255 one_gf16_def)
qed

section \<open>GF(2^16) is a field, generated by 257\<close>

text \<open>
  The powers of the generator with exponents below 65535 are distinct and not 0, and
  there are as many of them as non-zero elements: every non-zero element is such a
  power, its power with exponent 65535 is 1, and its inverse is its power with exponent
  65534.
\<close>

lemma gen_pow_65535_one: "gen ^ 65535 = 1"
  by (simp add: gen_pow_65535 one_gf16_def)

lemma gen_pow_mod: "gen ^ (i mod 65535) = gen ^ i"
proof -
  have "gen ^ i = gen ^ (65535 * (i div 65535) + i mod 65535)" by simp
  also have "\<dots> = (gen ^ 65535) ^ (i div 65535) * gen ^ (i mod 65535)"
    by (simp only: power_add power_mult)
  finally show ?thesis by (simp add: gen_pow_65535_one)
qed

lemma gen_pow_nonzero: "gen ^ i \<noteq> 0"
proof
  assume "gen ^ i = 0"
  then have "(gen ^ i) ^ 65535 = 0" by simp
  moreover have "(gen ^ i) ^ 65535 = (gen ^ 65535) ^ i"
    by (simp only: power_mult[symmetric] mult.commute)
  ultimately show False by (simp add: gen_pow_65535_one)
qed

lemma gen_pow_inj_le:
  assumes "i \<le> j" "j < 65535" "gen ^ i = gen ^ j"
  shows "i = j"
proof (rule ccontr)
  assume "i \<noteq> j"
  with assms have d: "0 < j - i" "j - i < 65535" by simp_all
  have "65535 - i + i = 65535" using assms(1,2) by simp
  then have inv: "gen ^ (65535 - i) * gen ^ i = 1"
    by (simp only: power_add[symmetric] gen_pow_65535_one)
  have "gen ^ (j - i) = gen ^ (65535 - i) * gen ^ i * gen ^ (j - i)" by (simp add: inv)
  also have "\<dots> = gen ^ (65535 - i) * gen ^ j"
    using assms(1) by (simp add: mult.assoc power_add[symmetric])
  also have "\<dots> = 1" using inv assms(3) by simp
  finally show False using gen_order[OF d] by simp
qed

lemma gen_pow_inj: "i < 65535 \<Longrightarrow> j < 65535 \<Longrightarrow> gen ^ i = gen ^ j \<Longrightarrow> i = j"
  using gen_pow_inj_le[of i j] gen_pow_inj_le[of j i] by (cases "i \<le> j") auto

lemma gen_pow_eq_mod: "gen ^ i = gen ^ j \<Longrightarrow> i mod 65535 = j mod 65535"
  using gen_pow_inj[of "i mod 65535" "j mod 65535"] by (simp add: gen_pow_mod)

lemma UNIV_gf16: "(UNIV :: gf16 set) = range GF"
proof -
  have "a \<in> range GF" for a :: gf16 by (cases a) simp
  then show ?thesis by auto
qed

lemma finite_gf16: "finite (UNIV :: gf16 set)"
  unfolding UNIV_gf16 by simp

lemma card_gf16: "card (UNIV :: gf16 set) = 65536"
proof -
  have "card (range GF) = card (UNIV :: uint16 set)"
    by (rule card_image) (simp add: inj_on_def)
  then show ?thesis unfolding UNIV_gf16 by (simp add: card_word)
qed

lemma gen_pow_surj:
  assumes "a \<noteq> 0"
  shows "\<exists>i<65535. a = gen ^ i"
proof -
  let ?S = "(\<lambda>i. gen ^ i) ` {..<65535::nat}"
  have inj: "inj_on (\<lambda>i. gen ^ i) {..<65535::nat}"
    by (rule inj_onI) (simp add: gen_pow_inj)
  have "card ?S = 65535" using card_image[OF inj] by simp
  moreover have "?S \<subseteq> UNIV - {0}" using gen_pow_nonzero by auto
  moreover have "card (UNIV - {0::gf16}) = 65535"
    using card_Diff_singleton[of "0::gf16" UNIV] by (simp add: card_gf16)
  moreover have "finite (UNIV - {0::gf16})" using finite_gf16 by simp
  ultimately have "?S = UNIV - {0}" by (intro card_subset_eq) simp_all
  with assms have "a \<in> ?S" by simp
  then show ?thesis by auto
qed

lemma gf_pow_65535: "a \<noteq> 0 \<Longrightarrow> (a::gf16) ^ 65535 = 1"
proof -
  assume "a \<noteq> 0"
  then obtain i where "a = gen ^ i" using gen_pow_surj by blast
  then have "a ^ 65535 = (gen ^ 65535) ^ i"
    by (simp only: power_mult[symmetric] mult.commute)
  then show ?thesis by (simp add: gen_pow_65535_one)
qed

instance gf16 :: field
proof
  fix a b :: gf16
  show "a \<noteq> 0 \<Longrightarrow> inverse a * a = 1"
    using gf_pow_65535[of a] power_Suc2[of a 65534] by (simp add: inverse_gf16_def)
  show "a div b = a * inverse b" by (simp add: inverse_gf16_def divide_gf16_def)
  show "inverse (0::gf16) = 0" by (simp add: inverse_gf16_def)
qed

section \<open>The tables\<close>

text \<open>
  The loop of the generator runs through the states \<open>stateAfter k\<close> and is left after
  65534 rounds, when the product is 1 again. No entry of \<open>logTable\<close> is written twice,
  since the powers it is indexed with are distinct.
\<close>

lemma rep_one [simp]: "rep 1 = 1" by (simp add: one_gf16_def)
lemma rep_zero [simp]: "rep 0 = 0" by (simp add: zero_gf16_def)

lemma tableInit_state: "tableInit generator = stateAfter 0"
  by (simp add: tableInit_def stateAfter_def generator_def SizeGF16_def)

lemma GF_rep_mult: "multiplyGF16 257 (rep a) = rep (gen * a)"
  by (simp add: times_gf16_def)

lemma rep_eq_1_iff: "rep a = 1 \<longleftrightarrow> a = 1"
  by (cases a) (simp add: one_gf16_def)

lemma tableLoop_step:
  assumes "k + 1 < 65535"
  shows "tableLoop generator (stateAfter k) = tableLoop generator (stateAfter (Suc k))"
proof -
  have "gen ^ (k + 1) \<noteq> 1" using gen_order[of "k + 1"] assms by simp
  then have ne: "rep (gen ^ (k + 1)) \<noteq> 1" by (simp only: rep_eq_1_iff not_False_eq_True)
  have next_product: "multiplyGF16 generator (rep (gen ^ (k + 1))) = rep (gen ^ (Suc k + 1))"
    by (simp add: generator_def GF_rep_mult)
  have next_state: "(rep (gen ^ (Suc k + 1)),
      map (\<lambda>i. rep (gen ^ i)) [0..<k + 2] @ [rep (gen ^ (Suc k + 1))],
      (logAfter k)[unat (rep (gen ^ (Suc k + 1))) := word_of_int (int k + 2)],
      int k + 2 + 1) = stateAfter (Suc k)"
    by (simp add: stateAfter_def add.commute)
  show ?thesis
    by (subst tableLoop.simps) (simp only: stateAfter_def[of k] prod.case ne if_True
        not_False_eq_True next_product next_state)
qed

lemma tableLoop_steps: "k < 65535 \<Longrightarrow> tableLoop generator (stateAfter 0) = tableLoop generator (stateAfter k)"
proof (induction k)
  case 0
  show ?case by simp
next
  case (Suc k)
  then show ?case using tableLoop_step[of k] by simp
qed

lemma tableLoop_result: "tableLoop generator (tableInit generator) = Some (stateAfter 65534)"
proof -
  have "rep (gen ^ (65534 + 1)) = 1" by (simp add: gen_pow_65535)
  then have "tableLoop generator (stateAfter 65534) = Some (stateAfter 65534)"
    by (subst tableLoop.simps) (simp add: stateAfter_def)
  then show ?thesis using tableLoop_steps[of 65534] by (simp add: tableInit_state)
qed

lemma expTable_eq: "expTable = map (\<lambda>i. rep (gen ^ i)) [0..<65536]"
  by (simp add: expTable_def tableLoop_result stateAfter_def)

lemma logTable_eq: "logTable = logAfter 65534"
  by (simp add: logTable_def tableLoop_result stateAfter_def)

lemma length_logAfter [simp]: "length (logAfter k) = 65536"
  by (induction k) simp_all

lemma unat_uint16_less: "unat (w::uint16) < 65536"
  using unsigned_less[of w] by simp

lemma rep_inject: "rep a = rep b \<longleftrightarrow> a = b"
  by (cases a; cases b) simp

lemma logAfter_nth:
  "k \<le> 65534 \<Longrightarrow> 1 \<le> i \<Longrightarrow> i \<le> k + 1 \<Longrightarrow> logAfter k ! unat (rep (gen ^ i)) = word_of_nat i"
proof (induction k)
  case 0
  then have "i = 1" by simp
  then show ?case by simp
next
  case (Suc k)
  show ?case
  proof (cases "i = k + 2")
    case True
    then show ?thesis by (simp add: unat_uint16_less)
  next
    case False
    with Suc.prems have i: "1 \<le> i" "i \<le> k + 1" by simp_all
    have "gen ^ i \<noteq> gen ^ (k + 2)"
    proof
      assume "gen ^ i = gen ^ (k + 2)"
      then have "i mod 65535 = (k + 2) mod 65535" by (rule gen_pow_eq_mod)
      with i Suc.prems(1) show False
        by (cases "k + 2 = 65535") simp_all
    qed
    then have "unat (rep (gen ^ i)) \<noteq> unat (rep (gen ^ (k + 2)))"
      by (simp only: word_unat_eq_iff[symmetric] rep_inject not_False_eq_True)
    then show ?thesis using Suc.IH[OF _ i] Suc.prems(1) by simp
  qed
qed

lemma logAfter_0: "logAfter k ! 0 = 0"
proof (induction k)
  case 0
  show ?case by simp
next
  case (Suc k)
  have "gen ^ (k + 2) \<noteq> 0" by (rule gen_pow_nonzero)
  then have "rep (gen ^ (k + 2)) \<noteq> 0" by (metis gf16.collapse zero_gf16_def)
  then have "unat (rep (gen ^ (k + 2))) \<noteq> 0" by (simp add: unat_eq_zero)
  then show ?case using Suc by simp
qed

lemma length_expTable: "length expTable = 65536"
  by (simp add: expTable_eq)

lemma length_logTable: "length logTable = 65536"
  by (simp add: logTable_eq)

lemma expTable_nth: "i < 65536 \<Longrightarrow> expTable ! i = rep (gen ^ i)"
  unfolding expTable_eq by (subst nth_map) simp_all

lemma logTable_nth: "1 \<le> i \<Longrightarrow> i \<le> 65535 \<Longrightarrow> logTable ! unat (rep (gen ^ i)) = word_of_nat i"
  unfolding logTable_eq by (rule logAfter_nth) simp_all

lemma logTable_0: "logTable ! 0 = 0"
  unfolding logTable_eq by (rule logAfter_0)

section \<open>mult and div compute in the field\<close>

text \<open>
  With the two tables, \<open>mult\<close> adds and \<open>div\<close> subtracts logarithms modulo 65535; the
  masks of \<open>crypto/subtle\<close> return 0 for an operand 0, whose logarithm is not defined.
\<close>

lemma ucast_eq_0: "(ucast (a::uint16) :: 32 word) = 0 \<longleftrightarrow> a = 0"
proof
  assume "(ucast a :: 32 word) = 0"
  then have "unat (ucast a :: 32 word) = 0" by simp
  then have "take_bit 32 (unat a) = 0" by (simp add: unsigned_ucast_eq)
  moreover have "unat a < 2 ^ 32" using unat_uint16_less[of a] by simp
  ultimately have "unat a = 0" by (simp add: take_bit_nat_eq_self)
  then show "a = 0" by (simp add: unat_eq_zero)
qed simp

lemma uint_of_nat_16: "i \<le> 65535 \<Longrightarrow> uint (word_of_nat i :: uint16) = int i"
  by (simp add: uint_nat unat_of_nat)

lemma unat_of_nat_16: "i \<le> 65535 \<Longrightarrow> unat (word_of_nat i :: uint16) = i"
  by (simp add: unat_of_nat)


lemma nonzero_dlog:
  assumes "v \<noteq> 0"
  obtains i where "1 \<le> i" "i \<le> 65535" "v = rep (gen ^ i)"
proof -
  have "GF v \<noteq> 0" using assms by (simp add: zero_gf16_def)
  then obtain i where i: "i < 65535" "GF v = gen ^ i" using gen_pow_surj by blast
  show ?thesis
  proof (cases "i = 0")
    case True
    with i have "GF v = gen ^ 65535" by (simp add: gen_pow_65535_one)
    then have "v = rep (gen ^ 65535)" by (metis gf16.sel)
    then show ?thesis using that[of 65535] by simp
  next
    case False
    from i have "v = rep (gen ^ i)" by (metis gf16.sel)
    with False i show ?thesis using that[of i] by simp
  qed
qed

lemma ConstantTimeSelect_1 [simp]: "ConstantTimeSelect 1 x y = x"
  by (simp add: ConstantTimeSelect_def)

lemma ConstantTimeSelect_0 [simp]: "ConstantTimeSelect 0 x y = y"
  by (simp add: ConstantTimeSelect_def)

lemma ConstantTimeEq_zero: "ConstantTimeEq (ucast (a::uint16)) 0 = (if a = 0 then 1 else 0)"
  by (simp add: ConstantTimeEq_def ucast_eq_0)

lemma ConstantTimeEq_0_0 [simp]: "ConstantTimeEq 0 0 = 1"
  by (simp add: ConstantTimeEq_def)

lemma ConstantTimeSelect_same [simp]: "ConstantTimeSelect v x x = x"
  unfolding ConstantTimeSelect_def by (rule bit_eqI) (auto simp: bit_simps)

lemma ModuloGF16_eq: "ModuloGF16 = 65535"
  by (simp add: ModuloGF16_def SizeGF16_def)

lemma mult_zero: "mult 0 b = 0" "mult a 0 = 0"
  by (simp_all add: mult_def Let_def ConstantTimeEq_zero)

lemma exp_log_sum:
  assumes "1 \<le> i" "i \<le> 65535" "1 \<le> j" "j \<le> 65535"
  shows "expTable ! nat ((uint (logTable ! unat (rep (gen ^ i))) + uint (logTable ! unat (rep (gen ^ j)))) mod ModuloGF16)
         = rep (gen ^ i * gen ^ j)"
proof -
  have "(uint (logTable ! unat (rep (gen ^ i))) + uint (logTable ! unat (rep (gen ^ j)))) mod ModuloGF16
        = int ((i + j) mod 65535)"
    using assms by (simp add: logTable_nth uint_of_nat_16 ModuloGF16_def SizeGF16_def zmod_int)
  moreover have "(i + j) mod 65535 < 65536"
    using mod_less_divisor[of 65535 "i + j"] by simp
  ultimately show ?thesis
    by (simp add: expTable_nth gen_pow_mod power_add)
qed

lemma mult_correct: "mult a b = rep (GF a * GF b)"
proof (cases "a = 0 \<or> b = 0")
  case True
  then show ?thesis
    by (auto simp: mult_zero zero_gf16_def[symmetric])
next
  case False
  then have ab: "a \<noteq> 0" "b \<noteq> 0" by simp_all
  from ab(1) obtain i where i: "1 \<le> i" "i \<le> 65535" "a = rep (gen ^ i)" by (rule nonzero_dlog)
  from ab(2) obtain j where j: "1 \<le> j" "j \<le> 65535" "b = rep (gen ^ j)" by (rule nonzero_dlog)
  have "mult a b = expTable ! nat ((uint (logTable ! unat a) + uint (logTable ! unat b)) mod ModuloGF16)"
    using ab by (simp add: mult_def Let_def ConstantTimeEq_zero)
  also have "\<dots> = rep (gen ^ i * gen ^ j)"
    unfolding i(3) j(3) using i(1,2) j(1,2) by (rule exp_log_sum)
  also have "\<dots> = rep (GF a * GF b)" by (simp add: i(3) j(3))
  finally show ?thesis .
qed

lemma exp_log_diff:
  assumes "1 \<le> i" "i \<le> 65535" "1 \<le> j" "j \<le> 65535"
  shows "expTable ! nat (((uint (logTable ! unat (rep (gen ^ i))) - uint (logTable ! unat (rep (gen ^ j)))) + ModuloGF16) mod ModuloGF16)
         = rep (gen ^ i / gen ^ j)"
proof -
  let ?d = "(i + 65535 - j) mod 65535"
  have "int (i + 65535 - j) = (int i - int j) + 65535" using assms by simp
  then have "int ?d = ((int i - int j) + 65535) mod 65535"
    by (simp only: zmod_int of_nat_numeral)
  moreover have "uint (logTable ! unat (rep (gen ^ i))) = int i" "uint (logTable ! unat (rep (gen ^ j))) = int j"
    using assms by (simp_all add: logTable_nth uint_of_nat_16)
  ultimately have "((uint (logTable ! unat (rep (gen ^ i))) - uint (logTable ! unat (rep (gen ^ j)))) + ModuloGF16) mod ModuloGF16
        = int ?d"
    by (simp only: ModuloGF16_eq)
  moreover have "?d < 65536"
    using mod_less_divisor[of 65535 "i + 65535 - j"] by simp
  ultimately have "expTable ! nat (((uint (logTable ! unat (rep (gen ^ i))) - uint (logTable ! unat (rep (gen ^ j)))) + ModuloGF16) mod ModuloGF16)
        = rep (gen ^ (i + 65535 - j))"
    by (simp add: expTable_nth gen_pow_mod)
  moreover have "gen ^ (i + 65535 - j) = gen ^ i / gen ^ j"
  proof -
    have "gen ^ (i + 65535 - j) * gen ^ j = gen ^ (i + 65535)"
      using assms by (simp add: power_add[symmetric])
    also have "\<dots> = gen ^ i" by (simp add: power_add gen_pow_65535_one)
    finally show ?thesis using gen_pow_nonzero[of j] by (simp add: eq_divide_eq)
  qed
  ultimately show ?thesis by simp
qed

lemma div_gf_correct: "b \<noteq> 0 \<Longrightarrow> div_gf a b = Some (rep (GF a / GF b))"
proof (cases "a = 0")
  case True
  assume "b \<noteq> 0"
  then show ?thesis using True
    by (simp add: div_gf_def Let_def ConstantTimeEq_zero zero_gf16_def[symmetric])
next
  case False
  assume b: "b \<noteq> 0"
  from False obtain i where i: "1 \<le> i" "i \<le> 65535" "a = rep (gen ^ i)" by (rule nonzero_dlog)
  from b obtain j where j: "1 \<le> j" "j \<le> 65535" "b = rep (gen ^ j)" by (rule nonzero_dlog)
  have "div_gf a b = Some (expTable ! nat (((uint (logTable ! unat a) - uint (logTable ! unat b)) + ModuloGF16) mod ModuloGF16))"
    using False b by (simp add: div_gf_def Let_def ConstantTimeEq_zero)
  also have "\<dots> = Some (rep (gen ^ i / gen ^ j))"
    unfolding i(3) j(3) using exp_log_diff[OF i(1,2) j(1,2)] by simp
  also have "\<dots> = Some (rep (GF a / GF b))" by (simp add: i(3) j(3))
  finally show ?thesis .
qed

lemma div_gf_None: "div_gf a b = None \<longleftrightarrow> b = 0"
  using div_gf_correct[of b a] by (cases "b = 0") (simp_all add: div_gf_def)

lemma gfpow_gen: "gfpow generator n = rep (gen ^ n)"
  by (induction n) (simp_all add: generator_def GF_rep_mult)

lemma GF_rep [simp]: "GF (rep a) = a" by simp

lemma tableLoop_tables:
  "tableLoop generator (tableInit generator) = Some (1, expTable, logTable, 65536)"
  by (simp add: tableLoop_result stateAfter_def expTable_eq logTable_eq gen_pow_65535)

lemma exp_log: "v \<noteq> 0 \<Longrightarrow> expTable ! unat (logTable ! unat v) = v"
proof -
  assume "v \<noteq> 0"
  then obtain i where i: "1 \<le> i" "i \<le> 65535" "v = rep (gen ^ i)" by (rule nonzero_dlog)
  then show ?thesis by (simp add: logTable_nth unat_of_nat_16 expTable_nth)
qed


section \<open>The tool: what it writes and how it exits\<close>

text \<open>
  With the generator 257 of the source the count is 65536 when the loop is left, so the
  self-check passes on every run: the tool goes on to create the file, and its exit
  status is decided by \<open>os.Create\<close> and the writes to the file alone.
\<close>

lemma writeAll_ok: "(\<And>k. wr k = None) \<Longrightarrow> writeAll wr k cs = (None, cs)"
  by (induction cs arbitrary: k) simp_all

lemma tableGenerator_self_check_passes:
  "tableGenerator generator env =
     Some (case create_file env of
             Some e \<Rightarrow> (Some e, None)
           | None \<Rightarrow>
               (case writeAll (file_write env) 0 (tableChunks logTable expTable) of
                  (err, written) \<Rightarrow> (err, Some written)))"
  by (simp add: tableGenerator_def tableLoop_tables SizeGF16_def)

lemma main_exit_status:
  "main env =
     Some (if create_file env \<noteq> None
              \<or> fst (writeAll (file_write env) 0 (tableChunks logTable expTable)) \<noteq> None
           then 1 else 0)"
  by (simp add: main_def main_with_def tableGenerator_self_check_passes
      split: option.splits prod.splits)

lemma tableGenerator_writes_tables:
  assumes "create_file env = None" "\<And>k. file_write env k = None"
  shows "tableGenerator generator env = Some (None, Some (tableChunks logTable expTable))"
  using assms by (simp add: tableGenerator_self_check_passes writeAll_ok)

lemma main_ok:
  assumes "create_file env = None" "\<And>k. file_write env k = None"
  shows "main env = Some 0"
  using tableGenerator_writes_tables[OF assms] by (simp add: main_def main_with_def)

text \<open>
  A remark on the branch that the self-check guards, which no run of the tool as it is
  reaches. It writes its message to standard error and returns the error of that write,
  which is \<open>nil\<close> when the message could be written. Were the constant replaced by an
  element that is not a generator, such as 1, the exit status would be 0 all the same.
\<close>

lemma self_check_returns_write_error:
  assumes "tableLoop g (tableInit g) = Some (product, expT, logT, count)" "count \<noteq> SizeGF16"
  shows "main_with g env = Some (if stderr_write env \<noteq> None then 1 else 0)"
  using assms by (simp add: main_with_def tableGenerator_def)

lemma self_check_generator_one:
  "tableLoop 1 (tableInit 1) = Some (1, [1, 1], (replicate 65536 0)[1 := 1], 2)
   \<and> main_with 1 \<lparr>stderr_write = None, create_file = None, file_write = (\<lambda>k. None)\<rparr> = Some 0"
proof -
  have l: "tableLoop 1 (tableInit 1) = Some (1, [1, 1], (replicate 65536 0)[1 := 1], 2)"
    by (subst tableLoop.simps) (simp add: tableInit_def SizeGF16_def)
  then show ?thesis
    by (simp add: main_with_def tableGenerator_def SizeGF16_def)
qed

section \<open>Interpolation in the field\<close>

text \<open>
  The two loops of \<open>interpolatePolynomial\<close> compute the interpolant \<open>lagrange\<close> of the
  field; \<open>div\<close> does not panic when the x values are distinct.
\<close>

lemma GF_add: "GF (add a b) = GF a + GF b"
  by (simp add: plus_gf16_def)

lemma GF_mult: "GF (mult a b) = GF a * GF b"
  by (simp add: mult_correct)

lemma GF_eq_0: "GF a = 0 \<longleftrightarrow> a = 0"
  by (simp add: zero_gf16_def)

lemma add_eq_0: "add a b = 0 \<longleftrightarrow> a = b"
proof -
  have "GF a + GF b = 0 \<longleftrightarrow> GF a = GF b"
    using eq_neg_iff_add_eq_0[of "GF a" "GF b"] by simp
  then show ?thesis by (simp add: GF_add[symmetric] GF_eq_0)
qed

lemma basisLoop_field:
  assumes "\<forall>j\<in>set js. j \<noteq> i \<longrightarrow> xs ! j \<noteq> xs ! i"
  shows "basisLoop xs x i js b =
           Some (rep (GF b * (\<Prod>j\<leftarrow>filter (\<lambda>j. j \<noteq> i) js. (GF x - GF (xs ! j)) / (GF (xs ! i) - GF (xs ! j)))))"
  using assms
proof (induction js arbitrary: b)
  case Nil
  show ?case by simp
next
  case (Cons j js)
  show ?case
  proof (cases "i = j")
    case True
    then show ?thesis using Cons by simp
  next
    case False
    with Cons.prems have "xs ! i \<noteq> xs ! j" by auto
    then have ne: "add (xs ! i) (xs ! j) \<noteq> 0" by (simp add: add_eq_0)
    have ih: "basisLoop xs x i js b' =
        Some (rep (GF b' * (\<Prod>j\<leftarrow>filter (\<lambda>j. j \<noteq> i) js. (GF x - GF (xs ! j)) / (GF (xs ! i) - GF (xs ! j)))))" for b'
      using Cons.IH Cons.prems by simp
    show ?thesis
      using False
      by (simp add: div_gf_correct[OF ne] ih GF_mult GF_add gf_minus mult.assoc)
  qed
qed

lemma idx_filter:
  assumes "distinct xs" "i < length xs"
  shows "map (\<lambda>j. xs ! j) (filter (\<lambda>j. j \<noteq> i) [0..<length xs]) = filter (\<lambda>x'. x' \<noteq> xs ! i) xs"
proof -
  have "filter (\<lambda>x'. x' \<noteq> xs ! i) xs = filter (\<lambda>x'. x' \<noteq> xs ! i) (map (\<lambda>j. xs ! j) [0..<length xs])"
    by (simp add: map_nth)
  also have "\<dots> = map (\<lambda>j. xs ! j) (filter (\<lambda>j. xs ! j \<noteq> xs ! i) [0..<length xs])"
    by (simp add: filter_map o_def)
  also have "filter (\<lambda>j. xs ! j \<noteq> xs ! i) [0..<length xs] = filter (\<lambda>j. j \<noteq> i) [0..<length xs]"
    using assms by (intro filter_cong refl) (simp add: nth_eq_iff_index_eq)
  finally show ?thesis by simp
qed

lemma GF_inject_ne: "(GF a \<noteq> GF b) = (a \<noteq> b)" by simp

lemma basisLoop_lbasis:
  assumes "distinct xs" "i < length xs"
  shows "basisLoop xs x i [0..<length xs] 1 = Some (rep (lbasis (map GF xs) (GF (xs ! i)) (GF x)))"
proof -
  have d: "\<forall>j\<in>set [0..<length xs]. j \<noteq> i \<longrightarrow> xs ! j \<noteq> xs ! i"
    using assms by (simp add: nth_eq_iff_index_eq)
  have "(\<Prod>j\<leftarrow>filter (\<lambda>j. j \<noteq> i) [0..<length xs]. (GF x - GF (xs ! j)) / (GF (xs ! i) - GF (xs ! j)))
      = (\<Prod>x'\<leftarrow>map (\<lambda>j. xs ! j) (filter (\<lambda>j. j \<noteq> i) [0..<length xs]). (GF x - GF x') / (GF (xs ! i) - GF x'))"
    by (simp add: o_def)
  also have "\<dots> = (\<Prod>x'\<leftarrow>filter (\<lambda>x'. x' \<noteq> xs ! i) xs. (GF x - GF x') / (GF (xs ! i) - GF x'))"
    by (simp only: idx_filter[OF assms])
  also have "\<dots> = lbasis (map GF xs) (GF (xs ! i)) (GF x)"
    by (simp add: lbasis_def filter_map o_def)
  finally show ?thesis
    using basisLoop_field[OF d, of x 1] by (simp add: one_gf16_def[symmetric])
qed

lemma interpLoop_field:
  assumes "distinct xs" "set is \<subseteq> {..<length xs}" "length xs \<le> length ys"
  shows "interpLoop xs ys x is r =
           Some (rep (GF r + (\<Sum>i\<leftarrow>is. GF (ys ! i) * lbasis (map GF xs) (GF (xs ! i)) (GF x))))"
  using assms(2)
proof (induction "is" arbitrary: r)
  case Nil
  show ?case by simp
next
  case (Cons i "is")
  then have i: "i < length xs" and rest: "set is \<subseteq> {..<length xs}" by simp_all
  then have "\<not> length ys \<le> i" using assms(3) by simp
  then show ?case
    using Cons.IH[OF rest]
    by (simp add: basisLoop_lbasis[OF assms(1) i] GF_add GF_mult add.assoc)
qed

lemma map_index_zip:
  "length xs = length ys \<Longrightarrow> map (\<lambda>i. f (xs ! i) (ys ! i)) [0..<length xs] = map (\<lambda>(x, y). f x y) (zip xs ys)"
  by (rule nth_equalityI) simp_all

lemma interpolatePolynomial_field:
  assumes "distinct xs" "length ys = length xs"
  shows "interpolatePolynomial xs ys x = Some (rep (lagrange (zip (map GF xs) (map GF ys)) (GF x)))"
proof -
  have "(\<Sum>i\<leftarrow>[0..<length xs]. GF (ys ! i) * lbasis (map GF xs) (GF (xs ! i)) (GF x))
      = (\<Sum>(a, b)\<leftarrow>zip xs ys. GF b * lbasis (map GF xs) (GF a) (GF x))"
    using map_index_zip[of xs ys "\<lambda>a b. GF b * lbasis (map GF xs) (GF a) (GF x)"] assms(2) by simp
  also have "\<dots> = lagrange (zip (map GF xs) (map GF ys)) (GF x)"
  proof -
    have "map (\<lambda>p. GF (fst p)) (zip xs ys) = map GF xs"
      using assms(2) by (intro nth_equalityI) simp_all
    then show ?thesis
      by (simp add: lagrange_def zip_map_map o_def case_prod_unfold)
  qed
  finally have s: "(\<Sum>i\<leftarrow>[0..<length xs]. GF (ys ! i) * lbasis (map GF xs) (GF (xs ! i)) (GF x))
      = lagrange (zip (map GF xs) (map GF ys)) (GF x)" .
  have "set [0..<length xs] \<subseteq> {..<length xs}" by auto
  from interpLoop_field[OF assms(1) this, of ys x 0] assms(2) s show ?thesis
    by (simp add: interpolatePolynomial_def zero_gf16_def[symmetric])
qed

section \<open>Combine: what it rejects and what it returns\<close>

text \<open>The secret that \<open>Combine\<close> reconstructs from parts it accepts.\<close>

definition combined :: "byte list list \<Rightarrow> byte list" where
  "combined parts =
     uint16ToByte (map (\<lambda>k. rep (lagrange (points (map byteToUint16 parts) k) 0))
                       [0..<length (hd parts) div 2 - 1])"

lemma length_byteToUint16 [simp]: "length (byteToUint16 bs) = length bs div 2"
  by (induction bs rule: byteToUint16.induct) simp_all

lemma length_uint16ToByte [simp]: "length (uint16ToByte ws) = 2 * length ws"
  by (induction ws) (simp_all add: uint16ToByte_def)

lemma byteToUint16_nth:
  "k < length bs div 2 \<Longrightarrow>
   byteToUint16 bs ! k = push_bit 8 (ucast (bs ! (2 * k))) OR ucast (bs ! (2 * k + 1))"
proof (induction bs arbitrary: k rule: byteToUint16.induct)
  case (1 hi lo rest)
  then show ?case by (cases k) simp_all
qed simp_all

lemma tag16_byteToUint16:
  assumes "even (length p)" "2 \<le> length p"
  shows "tag16 (byteToUint16 p) = xtag p"
proof -
  from assms obtain m where m: "length p = 2 * m" "1 \<le> m" by (auto elim: evenE)
  then have "2 * (m - 1) = length p - 2" "2 * (m - 1) + 1 = length p - 1" by simp_all
  then show ?thesis
    using byteToUint16_nth[of "m - 1" p] m by (simp add: xtag_def tag16_def)
qed

lemma sampleLoop_eq:
  "sampleLoop ps m xs =
     (if distinct (map tag16 ps) \<and> (\<forall>p\<in>set ps. m (tag16 p) = None)
      then Inr (xs @ map tag16 ps) else Inl DuplicatePart)"
proof (induction ps arbitrary: m xs)
  case Nil
  show ?case by simp
next
  case (Cons p ps)
  have step: "sampleLoop (p # ps) m xs =
      (if m (tag16 p) \<noteq> None then Inl DuplicatePart
       else sampleLoop ps (m(tag16 p \<mapsto> ())) (xs @ [tag16 p]))"
    by (simp add: tag16_def Let_def)
  show ?case by (simp only: step Cons) (auto intro: rev_image_eqI)
qed

lemma those_map_Some: "those (map (\<lambda>k. Some (f k)) ks) = Some (map f ks)"
  by (induction ks) simp_all

lemma zip_map_same: "zip (map f l) (map g l) = map (\<lambda>x. (f x, g x)) l"
  by (induction l) simp_all

text \<open>The parts that the code lets through its four checks.\<close>

lemma Combine_unfold:
  assumes "2 \<le> length parts" "4 \<le> length (hd parts)" "even (length (hd parts))"
    and same: "\<forall>p\<in>set parts. length p = length (hd parts)"
  shows "Combine parts =
     (if distinct (map xtag parts) then Some (Inr (combined parts)) else Some (Inl DuplicatePart))"
proof -
  let ?L = "length (hd parts)"
  let ?p16 = "map byteToUint16 parts"
  have hd0: "parts ! 0 = hd parts" using assms(1) by (cases parts) simp_all
  have nolen: "\<not> list_ex (\<lambda>part. length part \<noteq> ?L) (drop 1 parts)"
    using same by (auto simp: list_ex_iff dest: in_set_dropD)
  have "tag16 (byteToUint16 p) = xtag p" if "p \<in> set parts" for p
    using that assms(2,3) same by (intro tag16_byteToUint16) simp_all
  then have tags: "map tag16 ?p16 = map xtag parts" by simp
  have samples: "sampleLoop ?p16 Map.empty [] =
      (if distinct (map xtag parts) then Inr (map xtag parts) else Inl DuplicatePart)"
    by (simp only: sampleLoop_eq tags) simp
  have "?p16 ! 0 = byteToUint16 (hd parts)"
    using assms(1) by (cases parts) simp_all
  then have first16: "length (?p16 ! 0) - 1 = ?L div 2 - 1" by simp
  have head: "Combine parts =
      (case sampleLoop ?p16 Map.empty [] of
         Inl e \<Rightarrow> Some (Inl e)
       | Inr x_samples \<Rightarrow>
           (case those (map (\<lambda>idx. interpolatePolynomial x_samples (map (\<lambda>part. part ! idx) ?p16) 0)
                          [0..<?L div 2 - 1]) of
              None \<Rightarrow> None
            | Some secret16 \<Rightarrow> Some (Inr (uint16ToByte secret16))))"
    unfolding Combine_def Let_def hd0 first16 using assms(1,2,3) nolen
    by (simp add: odd_iff_mod_2_eq_one)
  show ?thesis
  proof (cases "distinct (map xtag parts)")
    case False
    then show ?thesis by (simp add: head samples)
  next
    case True
    have d: "distinct (map xtag parts)" by (rule True)
    have "interpolatePolynomial (map xtag parts) (map (\<lambda>part. part ! k) ?p16) 0
        = Some (rep (lagrange (points ?p16 k) 0))" for k
    proof -
      have "zip (map GF (map xtag parts)) (map GF (map (\<lambda>part. part ! k) ?p16)) = points ?p16 k"
        unfolding points_def tags[symmetric] by (simp add: zip_map_same o_def)
      then show ?thesis
        using interpolatePolynomial_field[OF d, of "map (\<lambda>part. part ! k) ?p16" 0]
        by (simp add: zero_gf16_def[symmetric])
    qed
    then show ?thesis
      using True by (simp add: head samples those_map_Some combined_def)
  qed
qed

lemma rejected_iff:
  "rejected parts \<longleftrightarrow>
     \<not> (2 \<le> length parts \<and> 4 \<le> length (hd parts) \<and> even (length (hd parts))
        \<and> (\<forall>p\<in>set parts. length p = length (hd parts)) \<and> distinct (map xtag parts))"
proof -
  have "(\<exists>p\<in>set parts. \<exists>q\<in>set parts. length p \<noteq> length q) \<longleftrightarrow>
        \<not> (\<forall>p\<in>set parts. length p = length (hd parts))" if "2 \<le> length parts"
  proof -
    from that have "hd parts \<in> set parts" by (cases parts) simp_all
    then show ?thesis by metis
  qed
  then show ?thesis unfolding rejected_def by (cases "2 \<le> length parts") auto
qed

lemma Combine_early_error:
  assumes "\<not> (2 \<le> length parts \<and> 4 \<le> length (hd parts) \<and> even (length (hd parts))
        \<and> (\<forall>p\<in>set parts. length p = length (hd parts)))"
  shows "\<exists>e. Combine parts = Some (Inl e)"
proof (cases "2 \<le> length parts")
  case False
  then show ?thesis by (simp add: Combine_def)
next
  case True
  then have hd0: "parts ! 0 = hd parts" by (cases parts) simp_all
  have "list_ex (\<lambda>part. length part \<noteq> length (hd parts)) (drop 1 parts)"
    if "\<not> (\<forall>p\<in>set parts. length p = length (hd parts))"
  proof -
    from that obtain p where p: "p \<in> set parts" "length p \<noteq> length (hd parts)" by blast
    from True have "parts = hd parts # drop 1 parts" by (cases parts) simp_all
    with p have "p \<in> set (drop 1 parts)" by (metis set_ConsD)
    with p show ?thesis by (auto simp: list_ex_iff)
  qed
  with assms True show ?thesis
    unfolding Combine_def Let_def hd0 by (auto simp: odd_iff_mod_2_eq_one)
qed

lemma Combine_accepts: "\<not> rejected parts \<Longrightarrow> Combine parts = Some (Inr (combined parts))"
  using Combine_unfold[of parts] by (simp add: rejected_iff)

lemma Combine_rejects: "rejected parts \<Longrightarrow> \<exists>e. Combine parts = Some (Inl e)"
  using Combine_unfold[of parts] Combine_early_error[of parts]
  unfolding rejected_iff by (cases "distinct (map xtag parts)") auto

lemma length_combined:
  "even (length (hd parts)) \<Longrightarrow> 2 \<le> length (hd parts) \<Longrightarrow> length (combined parts) = length (hd parts) - 2"
  by (auto simp: combined_def elim!: evenE)

lemma xtag_4: "xtag [a, b, c, d] = push_bit 8 (ucast c) OR ucast d"
  by (simp add: xtag_def)

lemma combined_zero_tag: "combined [[0, 5, 0, 0], [0, 7, 0, 1]] = [0, 5]"
proof -
  have "lagrange [(0, GF 5), (1, GF 7)] 0 = GF 5"
    by (simp add: lagrange_def lbasis_def)
  then show ?thesis
    by (simp add: combined_def points_def tag16_def uint16ToByte_def zero_gf16_def[symmetric] one_gf16_def[symmetric])
qed

section \<open>Combine does not depend on the order of the parts\<close>

text \<open>
  For distinct x values the interpolant is a sum over the set of samples, of products
  over the set of x values.
\<close>

lemma lbasis_set:
  "distinct xs \<Longrightarrow> lbasis xs xi t = (\<Prod>x'\<in>set xs - {xi}. (t - x') / (xi - x'))"
proof -
  assume "distinct xs"
  then have "distinct (filter (\<lambda>x'. x' \<noteq> xi) xs)" by simp
  then have "lbasis xs xi t = (\<Prod>x'\<in>set (filter (\<lambda>x'. x' \<noteq> xi) xs). (t - x') / (xi - x'))"
    unfolding lbasis_def by (rule prod.distinct_set_conv_list[symmetric])
  also have "set (filter (\<lambda>x'. x' \<noteq> xi) xs) = set xs - {xi}" by auto
  finally show ?thesis .
qed

lemma lagrange_set:
  assumes "distinct (map fst pts)"
  shows "lagrange pts t = (\<Sum>(x, y)\<in>set pts. y * (\<Prod>x'\<in>fst ` set pts - {x}. (t - x') / (x - x')))"
proof -
  have "distinct pts" using assms by (rule distinct_map[THEN iffD1, THEN conjunct1])
  then have "lagrange pts t = (\<Sum>(x, y)\<in>set pts. y * lbasis (map fst pts) x t)"
    unfolding lagrange_def by (rule sum.distinct_set_conv_list[symmetric])
  then show ?thesis by (simp add: lbasis_set[OF assms])
qed

lemma lagrange_set_eq:
  "distinct (map fst pts) \<Longrightarrow> distinct (map fst pts') \<Longrightarrow> set pts' = set pts \<Longrightarrow>
   lagrange pts' t = lagrange pts t"
  by (simp add: lagrange_set)

lemma accepted_props:
  assumes "\<not> rejected parts"
  shows "2 \<le> length parts" "4 \<le> length (hd parts)" "even (length (hd parts))"
    "\<And>p. p \<in> set parts \<Longrightarrow> length p = length (hd parts)" "distinct (map xtag parts)"
  using assms unfolding rejected_iff by auto

lemma points_fst:
  assumes "\<not> rejected parts"
  shows "map fst (points (map byteToUint16 parts) k) = map (\<lambda>p. GF (xtag p)) parts"
proof -
  note a = accepted_props[OF assms]
  have "tag16 (byteToUint16 p) = xtag p" if "p \<in> set parts" for p
    using that a(2,3,4) by (intro tag16_byteToUint16) simp_all
  then show ?thesis by (simp add: points_def o_def)
qed

lemma points_distinct:
  assumes "\<not> rejected parts"
  shows "distinct (map fst (points (map byteToUint16 parts) k))"
proof -
  have "distinct (map GF (map xtag parts))"
    using accepted_props(5)[OF assms] by (simp add: distinct_map inj_on_def)
  then show ?thesis by (simp add: points_fst[OF assms] o_def)
qed

lemma combined_set_eq:
  assumes "\<not> rejected parts" "\<not> rejected parts'" "set parts' = set parts"
  shows "combined parts' = combined parts"
proof -
  note a = accepted_props[OF assms(1)] and a' = accepted_props[OF assms(2)]
  have "hd parts' \<in> set parts" using a'(1) assms(3) by (cases parts') auto
  then have len: "length (hd parts') = length (hd parts)" by (rule a(4))
  have "set (points (map byteToUint16 parts') k) = set (points (map byteToUint16 parts) k)" for k
    using assms(3) by (simp add: points_def)
  then have "lagrange (points (map byteToUint16 parts') k) 0 = lagrange (points (map byteToUint16 parts) k) 0" for k
    by (intro lagrange_set_eq points_distinct assms)
  then show ?thesis by (simp add: combined_def len)
qed

lemma reindex_accepted:
  assumes "\<not> rejected parts" "distinct idxs" "set idxs = {..<length parts}"
  shows "\<not> rejected (map ((!) parts) idxs)" "set (map ((!) parts) idxs) = set parts"
proof -
  note a = accepted_props[OF assms(1)]
  let ?parts' = "map ((!) parts) idxs"
  have "(!) parts ` {..<length parts} = set parts"
    by (auto simp: in_set_conv_nth)
  then show s: "set ?parts' = set parts"
    by (simp add: assms(3))
  have "card (set idxs) = length parts" using assms(3) by simp
  then have l: "length idxs = length parts" using distinct_card[OF assms(2)] by simp
  have "inj_on (\<lambda>i. xtag (parts ! i)) (set idxs)"
  proof (rule inj_onI)
    fix i j assume ij: "i \<in> set idxs" "j \<in> set idxs" "xtag (parts ! i) = xtag (parts ! j)"
    then have "i < length (map xtag parts)" "j < length (map xtag parts)" using assms(3) by auto
    moreover have "map xtag parts ! i = map xtag parts ! j" using ij assms(3) by simp
    ultimately show "i = j" using nth_eq_iff_index_eq[OF a(5), of i j] by blast
  qed
  then have d: "distinct (map xtag ?parts')"
    using assms(2) by (simp add: distinct_map o_def)
  have "hd ?parts' \<in> set parts" using l a(1) s by (cases idxs) auto
  then have "length (hd ?parts') = length (hd parts)" by (rule a(4))
  then show "\<not> rejected ?parts'"
    unfolding rejected_iff using a l s d by auto
qed

lemma Combine_result:
  assumes "Combine parts = Some (Inr s)"
  shows "\<not> rejected parts" "s = combined parts"
proof -
  show r: "\<not> rejected parts" using Combine_rejects[of parts] assms by auto
  show "s = combined parts" using Combine_accepts[OF r] assms by simp
qed


section \<open>Split: validation and the shape of the shares\<close>

lemma evaluate_Some: "coefficients p \<noteq> [] \<Longrightarrow> evaluate p x = Some (evalc (coefficients p) x)"
  by (simp add: evaluate_def evalc_def Let_def)

lemma evalLoop_Some:
  "coefficients p \<noteq> [] \<Longrightarrow> evalLoop p idx is out16 = Some (fillColumn (coefficients p) idx is out16)"
  by (induction "is" arbitrary: out16) (simp_all add: evaluate_Some fillColumn_def)

lemma makePolynomial_ok:
  "rnd k = Inr f \<Longrightarrow>
   makePolynomial rnd k v d = Inr \<lparr>coefficients = v # byteToUint16 (map f [0..<unat (d * 2)])\<rparr>"
  by (simp add: makePolynomial_def rand_Read_def)

lemma splitLoop_ok:
  "rand_ok rnd \<Longrightarrow> \<exists>out fx'. splitLoop rnd parts threshold ws out16 fx = (Some (Inr out), fx')"
proof (induction ws arbitrary: out16 fx)
  case Nil
  show ?case by simp
next
  case (Cons w ws)
  obtain idx val where w: "w = (idx, val)" by (cases w)
  from Cons.prems obtain f where f: "rnd (rand_reads fx) = Inr f" by (auto simp: rand_ok_def)
  show ?case
    using Cons.IH[OF Cons.prems]
    by (simp add: w makePolynomial_ok[of rnd "rand_reads fx" f, OF f] evalLoop_Some)
qed

lemma Split_valid_ok:
  assumes "rand_ok rnd" "first_violation secret parts threshold = None"
  shows "\<exists>shares fx. Split secret parts threshold rnd = (Some (Inr shares), fx)"
proof -
  from assms(2) have v: "\<not> parts < threshold" "\<not> parts > MaxPartsGF16" "\<not> threshold < 2"
    "length secret \<noteq> 0" "\<not> length secret mod 2 \<noteq> 0"
    by (auto simp: first_violation_def MaxPartsGF16_def SizeGF16_def split: if_splits)
  obtain out fx' where l:
    "splitLoop rnd parts threshold (enumerate 0 (byteToUint16 secret))
       (map (\<lambda>idx. (replicate (length (byteToUint16 secret) + 1) 0)
                     [length (byteToUint16 secret) := word_of_nat idx + 1]) [0..<nat parts])
       \<lparr>rand_reads = 0, shares_allocated = nat parts\<rparr> = (Some (Inr out), fx')"
    using splitLoop_ok[OF assms(1)] by blast
  have "Split secret parts threshold rnd = (Some (Inr (map uint16ToByte out)), fx')"
    unfolding Split_def Let_def
    by (simp only: v if_False l prod.case option.case sum.case)
  then show ?thesis by blast
qed

lemma Split_violation:
  assumes "first_violation secret parts threshold = Some e"
  shows "Split secret parts threshold rnd = (Some (Inl e), \<lparr>rand_reads = 0, shares_allocated = 0\<rparr>)"
  using assms
  by (auto simp: first_violation_def Split_def MaxPartsGF16_def SizeGF16_def split: if_splits)

section \<open>Bytes and words\<close>

lemma word_bytes_join: "push_bit 8 (ucast (ucast (drop_bit 8 w) :: byte)) OR ucast (ucast w :: byte) = (w::uint16)"
  by (rule bit_eqI) (auto simp: bit_simps)

lemma byte_high_bits: "\<not> bit (lo::byte) (8 + n)"
  using bit_imp_le_length[of lo "8 + n"] by auto

lemma word_bytes_hi: "(ucast (drop_bit 8 (push_bit 8 (ucast hi) OR ucast (lo::byte) :: uint16)) :: byte) = hi"
  by (rule bit_eqI) (auto simp: bit_simps byte_high_bits)

lemma word_bytes_lo: "(ucast (push_bit 8 (ucast (hi::byte)) OR ucast lo :: uint16) :: byte) = lo"
  by (rule bit_eqI) (auto simp: bit_simps)

lemma uint16ToByte_Nil [simp]: "uint16ToByte [] = []"
  by (simp add: uint16ToByte_def)

lemma uint16ToByte_Cons: "uint16ToByte (w # ws) = ucast (drop_bit 8 w) # ucast w # uint16ToByte ws"
  by (simp add: uint16ToByte_def)

lemma byteToUint16_uint16ToByte [simp]: "byteToUint16 (uint16ToByte ws) = ws"
  by (induction ws) (simp_all add: uint16ToByte_Cons word_bytes_join)

lemma uint16ToByte_byteToUint16: "even (length bs) \<Longrightarrow> uint16ToByte (byteToUint16 bs) = bs"
proof (induction bs rule: byteToUint16.induct)
  case (1 hi lo rest)
  then have "uint16ToByte (byteToUint16 rest) = rest" by simp
  then show ?case
    by (simp only: byteToUint16.simps uint16ToByte_Cons word_bytes_hi word_bytes_lo)
qed simp_all

section \<open>Split: the shares in closed form\<close>

text \<open>
  After the words before \<open>k\<close> have been shared, row \<open>i\<close> of \<open>out16\<close> is
  \<open>shareRow rnd threshold secret16 k i\<close>.
\<close>

lemma fillColumn_upt:
  "n \<le> length out \<Longrightarrow>
   fillColumn cs idx [0..<n] out =
     map (\<lambda>i. (out ! i)[idx := evalc cs (word_of_nat i + 1)]) [0..<n] @ drop n out"
proof (induction n)
  case 0
  show ?case by (simp add: fillColumn_def)
next
  case (Suc n)
  then have n: "n < length out" by simp
  let ?f = "\<lambda>i. (out ! i)[idx := evalc cs (word_of_nat i + 1)]"
  have "fillColumn cs idx [0..<Suc n] out =
      (fillColumn cs idx [0..<n] out)[n := (fillColumn cs idx [0..<n] out ! n)[idx := evalc cs (word_of_nat n + 1)]]"
    by (simp add: fillColumn_def)
  also have "fillColumn cs idx [0..<n] out = map ?f [0..<n] @ drop n out"
    using Suc by simp
  also have "(map ?f [0..<n] @ drop n out) ! n = out ! n"
    using n by (simp add: nth_append)
  also have "(map ?f [0..<n] @ drop n out)[n := ?f n] = map ?f [0..<n] @ (drop n out)[0 := ?f n]"
    by (simp add: list_update_append)
  also have "(drop n out)[0 := ?f n] = ?f n # drop (Suc n) out"
    using n by (simp add: Cons_nth_drop_Suc[symmetric])
  finally show ?case by simp
qed

lemma shareRow_update:
  assumes "k < length secret16"
  shows "(shareRow rnd threshold secret16 k i)[k := evalc (shareCoeffs rnd threshold k (secret16 ! k)) (word_of_nat i + 1)]
         = shareRow rnd threshold secret16 (Suc k) i"
proof -
  from assms obtain m where m: "length secret16 - k = Suc m" "length secret16 - Suc k = m"
    by (cases "length secret16 - k") auto
  show ?thesis
    by (simp add: shareRow_def m list_update_append)
qed

lemma splitLoop_rows:
  assumes "k \<le> length secret16" "rand_reads fx = k"
    and "fst (splitLoop rnd parts threshold (enumerate k (drop k secret16))
                (map (shareRow rnd threshold secret16 k) [0..<nat parts]) fx) = Some (Inr out)"
  shows "out = map (shareRow rnd threshold secret16 (length secret16)) [0..<nat parts]"
  using assms
proof (induction "length secret16 - k" arbitrary: k fx)
  case 0
  then show ?case by simp
next
  case (Suc n)
  then have k: "k < length secret16" by simp
  let ?rows = "map (shareRow rnd threshold secret16 k) [0..<nat parts]"
  let ?rest = "enumerate (Suc k) (drop (Suc k) secret16)"
  let ?fx = "fx\<lparr>rand_reads := rand_reads fx + 1\<rparr>"
  have ws: "enumerate k (drop k secret16) = (k, secret16 ! k) # ?rest"
    using k by (simp add: Cons_nth_drop_Suc[symmetric])
  show ?case
  proof (cases "rnd k")
    case (Inl e)
    then have "fst (splitLoop rnd parts threshold (enumerate k (drop k secret16)) ?rows fx) = Some (Inl (PolynomialFailed e))"
      using Suc.prems(2) by (simp add: ws makePolynomial_def rand_Read_def)
    with Suc.prems(3) show ?thesis by simp
  next
    case (Inr f)
    let ?cs = "shareCoeffs rnd threshold k (secret16 ! k)"
    have mp: "makePolynomial rnd (rand_reads fx) (secret16 ! k) (word_of_int (threshold - 1)) = Inr \<lparr>coefficients = ?cs\<rparr>"
      using Inr Suc.prems(2) by (simp add: makePolynomial_def rand_Read_def shareCoeffs_def)
    have ne: "?cs \<noteq> []" using Inr by (simp add: shareCoeffs_def)
    have "fillColumn ?cs k [0..<nat parts] ?rows = map (shareRow rnd threshold secret16 (Suc k)) [0..<nat parts]"
      using fillColumn_upt[of "nat parts" ?rows ?cs k] shareRow_update[OF k, of rnd threshold]
      by simp
    then have el: "evalLoop \<lparr>coefficients = ?cs\<rparr> k [0..<nat parts] ?rows
        = Some (map (shareRow rnd threshold secret16 (Suc k)) [0..<nat parts])"
      using ne evalLoop_Some[of "\<lparr>coefficients = ?cs\<rparr>" k "[0..<nat parts]" ?rows] by simp
    have "splitLoop rnd parts threshold (enumerate k (drop k secret16)) ?rows fx
        = splitLoop rnd parts threshold ?rest (map (shareRow rnd threshold secret16 (Suc k)) [0..<nat parts]) ?fx"
      by (simp only: ws splitLoop.simps mp sum.case el option.case)
    with Suc.prems(3) have "fst (splitLoop rnd parts threshold ?rest
        (map (shareRow rnd threshold secret16 (Suc k)) [0..<nat parts]) ?fx) = Some (Inr out)" by simp
    moreover have "n = length secret16 - Suc k" using Suc.hyps(2) by simp
    moreover have "Suc k \<le> length secret16" using k by simp
    moreover have "rand_reads ?fx = Suc k" using Suc.prems(2) by simp
    ultimately show ?thesis using Suc.hyps(1)[of "Suc k" ?fx] by blast
  qed
qed

lemma initial_row: "(replicate (Suc w) 0)[w := x] = replicate w (0::uint16) @ [x]"
  by (induction w) simp_all

lemma Split_shares:
  assumes "fst (Split secret parts threshold rnd) = Some (Inr shares)"
  shows "first_violation secret parts threshold = None"
    and "shares = map (\<lambda>i. uint16ToByte (shareRow rnd threshold (byteToUint16 secret) (length secret div 2) i))
                      [0..<nat parts]"
proof -
  show fv: "first_violation secret parts threshold = None"
  proof (cases "first_violation secret parts threshold")
    case (Some e)
    then show ?thesis using Split_violation[OF Some, of rnd] assms by simp
  qed simp
  then have v: "\<not> parts < threshold" "\<not> parts > MaxPartsGF16" "\<not> threshold < 2"
    "length secret \<noteq> 0" "\<not> length secret mod 2 \<noteq> 0"
    by (auto simp: first_violation_def MaxPartsGF16_def SizeGF16_def split: if_splits)
  let ?s16 = "byteToUint16 secret"
  let ?init = "map (\<lambda>idx. (replicate (length ?s16 + 1) 0)[length ?s16 := word_of_nat idx + 1]) [0..<nat parts]"
  let ?fx = "\<lparr>rand_reads = 0, shares_allocated = nat parts\<rparr>"
  let ?r = "splitLoop rnd parts threshold (enumerate 0 ?s16) ?init ?fx"
  have S: "Split secret parts threshold rnd =
      (case ?r of
         (None, fx) \<Rightarrow> (None, fx)
       | (Some (Inl e), fx) \<Rightarrow> (Some (Inl e), fx)
       | (Some (Inr out16'), fx) \<Rightarrow> (Some (Inr (map uint16ToByte out16')), fx))"
    unfolding Split_def Let_def by (simp only: v if_False)
  obtain res fx' where r: "?r = (res, fx')" by (cases ?r)
  with S assms obtain out where out: "res = Some (Inr out)" "shares = map uint16ToByte out"
    by (cases res; cases "the res") (auto split: sum.splits)
  have init: "?init = map (shareRow rnd threshold ?s16 0) [0..<nat parts]"
    by (simp add: shareRow_def initial_row del: replicate_Suc)
  have "fst (splitLoop rnd parts threshold (enumerate 0 (drop 0 ?s16))
               (map (shareRow rnd threshold ?s16 0) [0..<nat parts]) ?fx) = Some (Inr out)"
    using r out(1) by (simp only: init[symmetric] drop_0 fst_conv)
  then have "out = map (shareRow rnd threshold ?s16 (length ?s16)) [0..<nat parts]"
    by (intro splitLoop_rows[where k = 0 and fx = ?fx]) simp_all
  then show "shares = map (\<lambda>i. uint16ToByte (shareRow rnd threshold ?s16 (length secret div 2) i)) [0..<nat parts]"
    using out(2) by simp
qed

lemma length_shareRow: "k \<le> length s16 \<Longrightarrow> length (shareRow rnd threshold s16 k i) = length s16 + 1"
  by (simp add: shareRow_def)

lemma tag16_shareRow: "tag16 (shareRow rnd threshold s16 (length s16) i) = word_of_nat i + 1"
  by (simp add: shareRow_def tag16_def nth_append)

lemma xtag_uint16ToByte: "ws \<noteq> [] \<Longrightarrow> xtag (uint16ToByte ws) = tag16 ws"
  using tag16_byteToUint16[of "uint16ToByte ws"] by (cases ws) simp_all

lemma Split_length:
  "fst (Split secret parts threshold rnd) = Some (Inr shares) \<Longrightarrow> length shares = nat parts"
  using Split_shares(2)[of secret parts threshold rnd shares] by simp

lemma Split_share_props:
  assumes "fst (Split secret parts threshold rnd) = Some (Inr shares)" "i < nat parts"
  shows "length (shares ! i) = length secret + 2"
    "xtag (shares ! i) = word_of_nat i + 1" "unat (xtag (shares ! i)) = i + 1"
proof -
  note sh = Split_shares[OF assms(1)]
  from sh(1) have v: "parts \<le> 65535" "even (length secret)"
    by (auto simp: first_violation_def split: if_splits)
  let ?row = "shareRow rnd threshold (byteToUint16 secret) (length secret div 2) i"
  have si: "shares ! i = uint16ToByte ?row" using assms(2) by (simp add: sh(2))
  have lr: "length ?row = length secret div 2 + 1"
    using length_shareRow[of "length secret div 2" "byteToUint16 secret"] by simp
  then show "length (shares ! i) = length secret + 2"
    using v(2) by (auto simp: si elim!: evenE)
  from lr have "?row \<noteq> []" by auto
  then have "xtag (uint16ToByte ?row) = tag16 ?row" by (rule xtag_uint16ToByte)
  then have "xtag (shares ! i) = tag16 ?row" by (simp only: si)
  also have "\<dots> = word_of_nat i + 1"
    using tag16_shareRow[of rnd threshold "byteToUint16 secret" i] by simp
  finally show x: "xtag (shares ! i) = word_of_nat i + 1" .
  have "i + 1 \<le> 65535" using assms(2) v(1) by simp
  then have "unat (word_of_nat (i + 1) :: uint16) = i + 1" by (rule unat_of_nat_16)
  then show "unat (xtag (shares ! i)) = i + 1" by (simp add: x add.commute)
qed


lemma Split_tags_nonzero:
  assumes "fst (Split secret parts threshold rnd) = Some (Inr shares)" "share \<in> set shares"
  shows "xtag share \<noteq> 0"
proof -
  from assms(2) obtain i where i: "i < length shares" "share = shares ! i"
    by (auto simp: in_set_conv_nth)
  then have "i < nat parts" using Split_length[OF assms(1)] by simp
  then have "unat (xtag share) = i + 1" using Split_share_props(3)[OF assms(1)] i(2) by simp
  then show ?thesis by auto
qed


section \<open>Lagrange interpolation is exact on polynomials of low degree\<close>

text \<open>
  In any field: a polynomial with no more coefficients than it has distinct roots is 0
  everywhere; the interpolant of \<open>n\<close> samples is a polynomial with at most \<open>n\<close>
  coefficients that takes the sampled values; so it is the polynomial that was sampled,
  when that has at most \<open>n\<close> coefficients.
\<close>

lemma peval_padd: "peval (padd p q) x = peval p x + peval q x"
  by (induction p q rule: padd.induct) (simp_all add: algebra_simps)

lemma length_padd: "length (padd p q) = max (length p) (length q)"
  by (induction p q rule: padd.induct) simp_all

lemma peval_smult: "peval (map ((*) c) p) x = c * peval p x"
  by (induction p) (simp_all add: algebra_simps)

lemma peval_append: "peval (p @ q) x = peval p x + x ^ length p * peval q x"
  by (induction p) (simp_all add: algebra_simps)

lemma peval_pdiv: "peval p x = (x - a) * peval (pdiv p a) x + peval p a"
proof (induction p a rule: pdiv.induct)
  case (3 c v va a)
  have e1: "pdiv (c # v # va) a = peval (v # va) a # pdiv (v # va) a" by simp
  have e2: "peval (peval (v # va) a # pdiv (v # va) a) x
      = peval (v # va) a + x * peval (pdiv (v # va) a) x" by (rule peval.simps(2))
  have e3: "peval (c # v # va) y = c + y * peval (v # va) y" for y by (rule peval.simps(2))
  show ?case unfolding e1 e2 e3
    by (subst "3.IH") (simp add: algebra_simps)
qed simp_all

lemma length_pdiv: "length (pdiv p a) = length p - 1"
  by (induction p a rule: pdiv.induct) simp_all

lemma roots_zero:
  "distinct as \<Longrightarrow> length p \<le> length as \<Longrightarrow> (\<forall>a\<in>set as. peval p a = 0) \<Longrightarrow> peval p x = 0"
proof (induction as arbitrary: p x)
  case Nil
  then show ?case by simp
next
  case (Cons a as)
  let ?q = "pdiv p a"
  have fac: "peval p y = (y - a) * peval ?q y" for y
    using peval_pdiv[of p y a] Cons.prems(3) by simp
  have "peval ?q a' = 0" if "a' \<in> set as" for a'
  proof -
    from that Cons.prems(1) have "a' - a \<noteq> 0" by auto
    moreover have "(a' - a) * peval ?q a' = 0" using fac[of a'] Cons.prems(3) that by simp
    ultimately show ?thesis by simp
  qed
  moreover have "length ?q \<le> length as" using Cons.prems(2) by (simp add: length_pdiv)
  moreover have "distinct as" using Cons.prems(1) by simp
  ultimately have "peval ?q x = 0" using Cons.IH by blast
  then show ?case by (simp add: fac)
qed

lemma factors_poly:
  "\<exists>q. length q \<le> Suc (length ys) \<and> (\<forall>t. peval q t = (\<Prod>x'\<leftarrow>ys. (t - x') / (xi - x')))"
proof (induction ys)
  case Nil
  have "length [1::'a] \<le> Suc (length ([]::'a list)) \<and> (\<forall>t. peval [1] t = (\<Prod>x'\<leftarrow>[]. (t - x') / (xi - x')))"
    by simp
  then show ?case by blast
next
  case (Cons y ys)
  then obtain q where q: "length q \<le> Suc (length ys)" "\<And>t. peval q t = (\<Prod>x'\<leftarrow>ys. (t - x') / (xi - x'))"
    by blast
  let ?q = "map ((*) (inverse (xi - y))) (padd (0 # q) (map ((*) (- y)) q))"
  have "length ?q \<le> Suc (length (y # ys))" using q(1) by (simp add: length_padd)
  moreover have "peval ?q t = (\<Prod>x'\<leftarrow>y # ys. (t - x') / (xi - x'))" for t
    by (simp add: peval_smult peval_padd q(2) divide_inverse algebra_simps)
  ultimately show ?case by blast
qed

lemma lbasis_poly:
  assumes "xi \<in> set xs"
  shows "\<exists>q. length q \<le> length xs \<and> (\<forall>t. peval q t = lbasis xs xi t)"
proof -
  have "length (filter (\<lambda>x'. x' \<noteq> xi) xs) < length xs"
    using assms by (intro length_filter_less) simp_all
  then show ?thesis
    using factors_poly[of "filter (\<lambda>x'. x' \<noteq> xi) xs" xi] unfolding lbasis_def
    by (meson Suc_leI le_trans)
qed

lemma lagrange_sum_poly:
  "(\<forall>p\<in>set pts. fst p \<in> set xs) \<Longrightarrow>
   \<exists>q. length q \<le> length xs \<and> (\<forall>t. peval q t = (\<Sum>(x, y)\<leftarrow>pts. y * lbasis xs x t))"
proof (induction pts)
  case Nil
  have "length ([]::'a list) \<le> length xs \<and> (\<forall>t. peval [] t = (\<Sum>(x, y)\<leftarrow>[]. y * lbasis xs x t))"
    by simp
  then show ?case by blast
next
  case (Cons p pts)
  obtain x y where p: "p = (x, y)" by (cases p)
  from Cons.prems p have "x \<in> set xs" by simp
  then obtain q1 where q1: "length q1 \<le> length xs" "\<And>t. peval q1 t = lbasis xs x t"
    using lbasis_poly by blast
  from Cons obtain q2 where q2: "length q2 \<le> length xs"
      "\<And>t. peval q2 t = (\<Sum>(x, y)\<leftarrow>pts. y * lbasis xs x t)"
    by auto
  let ?q = "padd (map ((*) y) q1) q2"
  have "length ?q \<le> length xs" using q1(1) q2(1) by (simp add: length_padd)
  moreover have "peval ?q t = (\<Sum>(x, y)\<leftarrow>p # pts. y * lbasis xs x t)" for t
    by (simp add: p peval_padd peval_smult q1(2) q2(2))
  ultimately show ?case by blast
qed

lemma lagrange_at_sample:
  assumes d: "distinct (map fst pts)" and ab: "(a, b) \<in> set pts"
  shows "lagrange pts a = b"
proof -
  let ?X = "fst ` set pts"
  let ?f = "\<lambda>(x, y). y * (\<Prod>x'\<in>?X - {x}. (a - x') / (x - x'))"
  have other: "?f p = 0" if "p \<in> set pts - {(a, b)}" for p
  proof -
    obtain x y where p: "p = (x, y)" by (cases p)
    have "x \<noteq> a"
    proof
      assume "x = a"
      moreover from d have "inj_on fst (set pts)" by (simp add: distinct_map)
      ultimately have "(x, y) = (a, b)"
        using that p ab inj_onD[of fst "set pts" "(x, y)" "(a, b)"] by simp
      with that p show False by simp
    qed
    moreover have "a \<in> ?X" using ab by force
    ultimately have "a \<in> ?X - {x}" by simp
    moreover have "(a - a) / (x - a) = 0" by simp
    ultimately have "(\<Prod>x'\<in>?X - {x}. (a - x') / (x - x')) = 0"
      by (intro prod_zero) auto
    then show ?thesis by (simp add: p)
  qed
  have "(\<Prod>x'\<in>?X - {a}. (a - x') / (a - x')) = 1"
    by (intro prod.neutral) auto
  then have self: "?f (a, b) = b" by simp
  have "lagrange pts a = sum ?f (set pts)" by (rule lagrange_set[OF d])
  also have "\<dots> = ?f (a, b) + sum ?f (set pts - {(a, b)})"
    using ab by (intro sum.remove) simp_all
  also have "sum ?f (set pts - {(a, b)}) = 0"
    using other by (intro sum.neutral) blast
  finally show ?thesis using self by simp
qed

lemma lagrange_exact:
  assumes "distinct xs" "length cs \<le> length xs"
  shows "lagrange (map (\<lambda>x. (x, peval cs x)) xs) t = peval cs t"
proof -
  let ?pts = "map (\<lambda>x. (x, peval cs x)) xs"
  have fst: "map fst ?pts = xs" by (simp add: o_def)
  obtain q where q: "length q \<le> length xs" "\<And>t. peval q t = lagrange ?pts t"
    using lagrange_sum_poly[of ?pts xs] unfolding lagrange_def fst by auto
  let ?d = "padd q (map ((*) (- 1)) cs)"
  have "length ?d \<le> length xs" using q(1) assms(2) by (simp add: length_padd)
  moreover have "peval ?d a = 0" if "a \<in> set xs" for a
  proof -
    have "(a, peval cs a) \<in> set ?pts" using that by auto
    then have "lagrange ?pts a = peval cs a"
      using assms(1) by (intro lagrange_at_sample) (simp add: o_def)
    then show ?thesis by (simp add: peval_padd peval_smult q(2))
  qed
  ultimately have "peval ?d t = 0" using assms(1) roots_zero[of xs ?d t] by blast
  then show ?thesis by (simp add: peval_padd peval_smult q(2))
qed

section \<open>evaluate computes the value of the polynomial\<close>

lemma horner_peval:
  "n \<le> length cs \<Longrightarrow> GF (horner cs x n out) = peval (map GF (take n cs) @ [GF out]) (GF x)"
proof (induction n arbitrary: out)
  case 0
  show ?case by simp
next
  case (Suc n)
  then have n: "n < length cs" by simp
  have "GF (horner cs x (Suc n) out) = peval (map GF (take n cs) @ [GF (add (mult out x) (cs ! n))]) (GF x)"
    using Suc.IH[of "add (mult out x) (cs ! n)"] n by simp
  also have "\<dots> = peval (map GF (take (Suc n) cs) @ [GF out]) (GF x)"
    by (simp add: take_Suc_conv_app_nth[OF n] peval_append GF_add GF_mult algebra_simps)
  finally show ?case .
qed

lemma evalc_peval: "cs \<noteq> [] \<Longrightarrow> GF (evalc cs x) = peval (map GF cs) (GF x)"
proof -
  assume ne: "cs \<noteq> []"
  then obtain c cs' where cs: "cs = c # cs'" by (cases cs) auto
  show ?thesis
  proof (cases "x = 0")
    case True
    then show ?thesis by (simp add: evalc_def cs zero_gf16_def[symmetric])
  next
    case False
    let ?n = "length cs - 1"
    have n: "?n < length cs" using ne by simp
    have "take ?n cs @ [cs ! ?n] = cs"
      using take_Suc_conv_app_nth[OF n] ne by simp
    then have "map GF (take ?n cs) @ [GF (cs ! ?n)] = map GF cs"
      by (metis list.simps(8,9) map_append)
    then show ?thesis
      using horner_peval[of ?n cs x "cs ! ?n"] False by (simp add: evalc_def)
  qed
qed

lemma peval_0: "peval (c # cs) 0 = c"
  by simp

lemma shareCoeffs_hd: "shareCoeffs rnd threshold k val = val # tl (shareCoeffs rnd threshold k val)"
  by (simp add: shareCoeffs_def split: sum.splits)

lemma unat_double_le: "unat (w * 2 :: uint16) \<le> unat w * 2"
  by (simp add: unat_word_ariths)

lemma length_shareCoeffs:
  assumes "2 \<le> threshold" "threshold \<le> 65535"
  shows "length (shareCoeffs rnd threshold k val) \<le> nat threshold"
proof -
  let ?d = "word_of_int (threshold - 1) :: uint16"
  have "uint ?d = (threshold - 1) mod 2 ^ LENGTH(16)" by (rule uint_word_of_int)
  also have "\<dots> = threshold - 1" using assms by simp
  finally have "uint ?d = threshold - 1" .
  then have d: "unat ?d = nat (threshold - 1)" by (simp add: unat_eq_nat_uint)
  have "unat (?d * 2) \<le> unat ?d * 2"
    by (rule unat_double_le)
  then have "unat (?d * 2) div 2 \<le> nat (threshold - 1)" using d by simp
  then show ?thesis using assms
    by (auto simp: shareCoeffs_def split: sum.splits)
qed

section \<open>Combine undoes Split\<close>

text \<open>
  Word \<open>k\<close> of share \<open>i\<close> is the value at \<open>i + 1\<close> of a polynomial with at most
  \<open>threshold\<close> coefficients, the first of which is word \<open>k\<close> of the secret; the
  interpolant of \<open>threshold\<close> or more such samples at 0 is that first coefficient.
\<close>

lemma shareRow_nth:
  "k < length s16 \<Longrightarrow>
   shareRow rnd threshold s16 (length s16) i ! k
     = evalc (shareCoeffs rnd threshold k (s16 ! k)) (word_of_nat i + 1)"
  by (simp add: shareRow_def nth_append)

lemma shareCoeffs_interpolated:
  assumes th: "2 \<le> threshold" "threshold \<le> 65535"
    and idxs: "distinct (map (\<lambda>i. word_of_nat i + 1 :: uint16) idxs)" "nat threshold \<le> length idxs"
  shows "lagrange (map (\<lambda>i. (GF (word_of_nat i + 1), GF (evalc (shareCoeffs rnd threshold k val) (word_of_nat i + 1)))) idxs) 0
         = GF val"
proof -
  let ?cs = "shareCoeffs rnd threshold k val"
  let ?xs = "map (\<lambda>i. GF (word_of_nat i + 1)) idxs"
  have ne: "?cs \<noteq> []" using shareCoeffs_hd[of rnd threshold k val] by auto
  have pts: "map (\<lambda>i. (GF (word_of_nat i + 1), GF (evalc ?cs (word_of_nat i + 1)))) idxs
      = map (\<lambda>x. (x, peval (map GF ?cs) x)) ?xs"
    by (simp add: evalc_peval[OF ne] o_def)
  have "distinct (map GF (map (\<lambda>i. word_of_nat i + 1 :: uint16) idxs))"
    using idxs(1) by (simp add: distinct_map inj_on_def del: map_map)
  then have d: "distinct ?xs" by (simp add: o_def)
  have l: "length (map GF ?cs) \<le> length ?xs"
    using length_shareCoeffs[OF th, of rnd k val] idxs(2) by simp
  have "peval (map GF ?cs) 0 = GF val"
    by (subst shareCoeffs_hd) simp
  then show ?thesis
    unfolding pts using lagrange_exact[OF d l, of 0] by simp
qed

lemma Split_Combine_rows:
  assumes s: "fst (Split secret parts threshold rnd) = Some (Inr shares)"
    and idxs: "distinct idxs" "set idxs \<subseteq> {..<nat parts}" "nat threshold \<le> length idxs"
  shows "Combine (map ((!) shares) idxs) = Some (Inr secret)"
proof -
  note sh = Split_shares[OF s]
  from sh(1) have v: "2 \<le> threshold" "threshold \<le> parts" "parts \<le> 65535" "even (length secret)" "0 < length secret"
    by (auto simp: first_violation_def split: if_splits)
  let ?s16 = "byteToUint16 secret"
  let ?W = "length secret div 2"
  let ?row = "shareRow rnd threshold ?s16 ?W"
  let ?parts = "map ((!) shares) idxs"
  have W: "length ?s16 = ?W" by simp
  have in_range: "i < nat parts" if "i \<in> set idxs" for i using that idxs(2) by auto
  have nth_share: "shares ! i = uint16ToByte (?row i)" if "i \<in> set idxs" for i
    using in_range[OF that] by (simp add: sh(2))
  have parts_eq: "?parts = map (\<lambda>i. uint16ToByte (?row i)) idxs"
    using nth_share by simp
  have len_row: "length (?row i) = ?W + 1" for i
    using length_shareRow[of ?W ?s16 rnd threshold i] by simp
  have twoW: "2 * (?W + 1) = length secret + 2" using v(4) by (auto elim!: evenE)
  have len_part: "length p = length secret + 2" if "p \<in> set ?parts" for p
  proof -
    from that obtain i where "p = uint16ToByte (?row i)" unfolding parts_eq by auto
    then have "length p = 2 * (?W + 1)" by (simp only: length_uint16ToByte len_row)
    then show ?thesis by (simp only: twoW)
  qed
  have tags: "map xtag ?parts = map (\<lambda>i. word_of_nat i + 1) idxs"
  proof -
    have "xtag (shares ! i) = word_of_nat i + 1" if "i \<in> set idxs" for i
      using Split_share_props(2)[OF s in_range[OF that]] .
    then show ?thesis by simp
  qed
  have dtags: "distinct (map (\<lambda>i. word_of_nat i + 1 :: uint16) idxs)"
  proof -
    have "inj_on (\<lambda>i. word_of_nat i + 1 :: uint16) (set idxs)"
    proof (rule inj_onI)
      fix i j assume ij: "i \<in> set idxs" "j \<in> set idxs"
        "(word_of_nat i + 1 :: uint16) = word_of_nat j + 1"
      have a: "unat (xtag (shares ! i)) = i + 1" and b: "unat (xtag (shares ! j)) = j + 1"
        using Split_share_props(3)[OF s] in_range ij(1,2) by simp_all
      have c: "xtag (shares ! i) = xtag (shares ! j)"
        using Split_share_props(2)[OF s in_range[OF ij(1)]]
          Split_share_props(2)[OF s in_range[OF ij(2)]] ij(3) by (simp only:)
      from a have "unat (xtag (shares ! j)) = i + 1" by (simp only: c)
      with b show "i = j" by simp
    qed
    then show ?thesis using idxs(1) by (simp add: distinct_map)
  qed
  have two: "2 \<le> length ?parts" using idxs(3) v(1) by simp
  then have "hd ?parts \<in> set ?parts" by (cases ?parts) auto
  then have len_hd: "length (hd ?parts) = length secret + 2" by (rule len_part)
  have dx: "distinct (map xtag ?parts)" by (simp only: tags dtags)
  have ls: "2 \<le> length secret"
  proof -
    from v(4) obtain b where b: "length secret = 2 * b" by (auto elim: evenE)
    with v(5) have "1 \<le> b" by (cases b) simp_all
    with b show ?thesis by simp
  qed
  have acc: "\<not> rejected ?parts"
    unfolding rejected_iff using two len_hd len_part ls v(4) dx by simp
  have word: "rep (lagrange (points (map byteToUint16 ?parts) k) 0) = ?s16 ! k" if "k < ?W" for k
  proof -
    have "points (map byteToUint16 ?parts) k
        = map (\<lambda>i. (GF (tag16 (?row i)), GF (?row i ! k))) idxs"
      unfolding parts_eq by (simp add: points_def o_def)
    also have "\<dots> = map (\<lambda>i. (GF (word_of_nat i + 1),
        GF (evalc (shareCoeffs rnd threshold k (?s16 ! k)) (word_of_nat i + 1)))) idxs"
      using that tag16_shareRow[of rnd threshold ?s16] shareRow_nth[of k ?s16 rnd threshold]
      by simp
    finally show ?thesis
      using shareCoeffs_interpolated[OF v(1) _ dtags idxs(3), of rnd k "?s16 ! k"] v(2,3)
      by simp
  qed
  have m: "map (\<lambda>k. rep (lagrange (points (map byteToUint16 ?parts) k) 0)) [0..<?W]
      = map (\<lambda>k. ?s16 ! k) [0..<?W]"
    by (rule map_cong[OF refl], rule word) simp
  have "length (hd ?parts) div 2 - 1 = ?W" unfolding len_hd by simp
  then have "combined ?parts = uint16ToByte (map (\<lambda>k. ?s16 ! k) [0..<?W])"
    unfolding combined_def by (simp only: m)
  also have "map (\<lambda>k. ?s16 ! k) [0..<?W] = ?s16"
    using map_nth[of ?s16] by simp
  also have "uint16ToByte ?s16 = secret" using v(4) by (rule uint16ToByte_byteToUint16)
  finally show ?thesis using Combine_accepts[OF acc] by simp
qed


text \<open>
  A remark on the degree. \<open>makePolynomial\<close> sizes its buffer with \<open>degree*2\<close> in
  \<open>uint16\<close>, so from threshold 32769 on the polynomial has fewer than
  \<open>threshold - 1\<close> random coefficients; at 32769 it is the constant polynomial. The
  reconstruction above is not affected, since the polynomial still has at most
  \<open>threshold\<close> coefficients.
\<close>

lemma makePolynomial_degree_wraps:
  "rnd k = Inr f \<Longrightarrow>
   makePolynomial rnd k v (word_of_int (32769 - 1)) = Inr \<lparr>coefficients = [v]\<rparr>"
  by (simp add: makePolynomial_def rand_Read_def)

section \<open>The claims\<close>

text \<open>
  Claim C1. Whenever \<open>Split\<close> returns shares (which it only does for a secret of
  even length at least 2 and \<open>2 \<le> threshold \<le> parts \<le> 65535\<close>), \<open>Combine\<close> applied
  to any \<open>threshold\<close> of them, picked by a list \<open>idxs\<close> of distinct positions and in
  any order, returns the secret, whatever the randomness source \<open>rnd\<close> delivered.
\<close>

theorem Split_Combine:
  "fst (Split secret parts threshold rnd) = Some (Inr shares) \<Longrightarrow>
   distinct idxs \<Longrightarrow> set idxs \<subseteq> {..<nat parts} \<Longrightarrow> length idxs = nat threshold \<Longrightarrow>
   Combine (map ((!) shares) idxs) = Some (Inr secret)"
  using Split_Combine_rows[of secret parts threshold rnd shares idxs] by simp

theorem Split_Combine_witness:
  "\<exists>shares. fst (Split [0x74, 0x65, 0x73, 0x74] 5 3 (\<lambda>k. Inr (\<lambda>i. 0))) = Some (Inr shares)
     \<and> Combine [shares ! 4, shares ! 0, shares ! 2] = Some (Inr [0x74, 0x65, 0x73, 0x74])"
proof -
  obtain shares fx where "Split [0x74, 0x65, 0x73, 0x74] 5 3 (\<lambda>k. Inr (\<lambda>i. 0)) = (Some (Inr shares), fx)"
    using Split_valid_ok[of "\<lambda>k. Inr (\<lambda>i. 0)" "[0x74, 0x65, 0x73, 0x74]" 5 3]
    by (auto simp: rand_ok_def first_violation_def)
  then have s: "fst (Split [0x74, 0x65, 0x73, 0x74] 5 3 (\<lambda>k. Inr (\<lambda>i. 0))) = Some (Inr shares)" by simp
  have "Combine (map ((!) shares) [4, 0, 2]) = Some (Inr [0x74, 0x65, 0x73, 0x74])"
    by (rule Split_Combine[OF s]) simp_all
  with s show ?thesis by auto
qed

text \<open>
  Claim C2, as the code has it. The generator stores the logarithm of 1 in its last
  round, when the count is 65535: \<open>logTable[1]\<close> is 65535 and not 0, so the
  logarithms lie in 1..65535 and not in 0..65534.
\<close>

theorem logTable_one_counterexample: "\<not> unat (logTable ! 1) \<le> 65534"
proof -
  have "logTable ! unat (rep (gen ^ 65535)) = word_of_nat 65535"
    by (rule logTable_nth) simp_all
  then have "logTable ! 1 = 65535" by (simp add: gen_pow_65535)
  then show ?thesis by simp
qed

text \<open>
  Claim C2, amended. For every \<open>v\<close> from 1 to 65535, \<open>logTable[v]\<close> lies in
  1..65535, and the generator 257 raised to \<open>logTable[v]\<close> is \<open>v\<close>.
\<close>

theorem logTable_range_power:
  "v \<noteq> 0 \<Longrightarrow>
     1 \<le> unat (logTable ! unat v) \<and> unat (logTable ! unat v) \<le> 65535
     \<and> gfpow generator (unat (logTable ! unat v)) = v"
proof -
  assume "v \<noteq> 0"
  then obtain i where i: "1 \<le> i" "i \<le> 65535" "v = rep (gen ^ i)" by (rule nonzero_dlog)
  then show ?thesis by (simp add: logTable_nth unat_of_nat_16 gfpow_gen)
qed

theorem logTable_range_power_witness:
  "(1::uint16) \<noteq> 0 \<and> 1 \<le> unat (logTable ! unat (1::uint16)) \<and> unat (logTable ! unat (1::uint16)) \<le> 65535
     \<and> gfpow generator (unat (logTable ! unat (1::uint16))) = 1"
  using logTable_range_power[of 1] by simp

text \<open>
  Claim C4. \<open>Split\<close> checks its arguments in the order of the spec's table
  (\<open>first_violation\<close>): parts below threshold, more than 65535 parts, threshold below 2,
  empty secret, secret of odd length. A failed check returns its own error, and does so
  before a single call of \<open>rand.Read\<close> and before a single output share is allocated.
  When the randomness source never fails, \<open>Split\<close> returns an error exactly when one
  of the five conditions holds.
\<close>

theorem Split_validation:
  "(first_violation secret parts threshold = Some e \<longrightarrow>
      Split secret parts threshold rnd = (Some (Inl e), \<lparr>rand_reads = 0, shares_allocated = 0\<rparr>))
   \<and> (rand_ok rnd \<longrightarrow>
        ((\<exists>e'. fst (Split secret parts threshold rnd) = Some (Inl e')) \<longleftrightarrow>
         (parts < threshold \<or> parts > 65535 \<or> threshold < 2 \<or> length secret = 0 \<or> odd (length secret))))
   \<and> (first_violation secret parts threshold = None \<longleftrightarrow>
        \<not> (parts < threshold \<or> parts > 65535 \<or> threshold < 2 \<or> length secret = 0 \<or> odd (length secret)))
   \<and> distinct [PartsLessThanThreshold, PartsExceedLimit, ThresholdTooSmall, EmptySecret, OddLengthSecret]"
proof (intro conjI impI)
  assume "first_violation secret parts threshold = Some e"
  then show "Split secret parts threshold rnd = (Some (Inl e), \<lparr>rand_reads = 0, shares_allocated = 0\<rparr>)"
    by (rule Split_violation)
next
  show fv: "first_violation secret parts threshold = None \<longleftrightarrow>
        \<not> (parts < threshold \<or> parts > 65535 \<or> threshold < 2 \<or> length secret = 0 \<or> odd (length secret))"
    by (auto simp: first_violation_def)
  assume r: "rand_ok rnd"
  show "(\<exists>e'. fst (Split secret parts threshold rnd) = Some (Inl e')) \<longleftrightarrow>
         (parts < threshold \<or> parts > 65535 \<or> threshold < 2 \<or> length secret = 0 \<or> odd (length secret))"
  proof (cases "first_violation secret parts threshold")
    case None
    with Split_valid_ok[OF r None] fv show ?thesis by auto
  next
    case (Some e')
    with Split_violation[OF Some] fv show ?thesis by auto
  qed
next
  show "distinct [PartsLessThanThreshold, PartsExceedLimit, ThresholdTooSmall, EmptySecret, OddLengthSecret]"
    by simp
qed

theorem Split_validation_witness:
  "first_violation [1, 2, 3] 5 3 = Some OddLengthSecret
   \<and> rand_ok (\<lambda>k. Inr (\<lambda>i. 0))
   \<and> Split [1, 2, 3] 5 3 (\<lambda>k. Inr (\<lambda>i. 0)) = (Some (Inl OddLengthSecret), \<lparr>rand_reads = 0, shares_allocated = 0\<rparr>)
   \<and> (\<exists>e'. fst (Split [1, 2, 3] 5 3 (\<lambda>k. Inr (\<lambda>i. 0))) = Some (Inl e'))"
  using Split_validation[of "[1, 2, 3]" 5 3 OddLengthSecret "\<lambda>k. Inr (\<lambda>i. 0)"]
  by (simp add: first_violation_def rand_ok_def)

text \<open>
  Claim C5. \<open>Combine\<close> returns an error exactly when its input is \<open>rejected\<close>: fewer
  than two parts, two parts of different length, a length below 4 or odd, or two parts
  with the same trailing 16-bit word. Otherwise it returns, without error, a byte
  sequence two bytes shorter than the parts; how many parts the secret was split for
  plays no role.
\<close>

theorem Combine_validation:
  "((\<exists>e. Combine parts = Some (Inl e)) \<longleftrightarrow> rejected parts)
   \<and> (\<not> rejected parts \<longrightarrow> (\<exists>s. Combine parts = Some (Inr s) \<and> length s = length (hd parts) - 2))"
proof (cases "rejected parts")
  case True
  then show ?thesis using Combine_rejects[of parts] by simp
next
  case False
  then have "even (length (hd parts))" "2 \<le> length (hd parts)" by (auto simp: rejected_def)
  then have "length (combined parts) = length (hd parts) - 2" by (rule length_combined)
  with False show ?thesis by (simp add: Combine_accepts)
qed

theorem Combine_validation_witness:
  "\<not> rejected [[0, 5, 0, 0], [0, 7, 0, 1]]
   \<and> (\<exists>s. Combine [[0, 5, 0, 0], [0, 7, 0, 1]] = Some (Inr s) \<and> length s = 2)"
proof -
  have "\<not> rejected [[0, 5, 0, 0], [0, 7, 0, 1]]" by (simp add: rejected_def xtag_4)
  then show ?thesis using Combine_validation[of "[[0, 5, 0, 0], [0, 7, 0, 1]]"]
    by (auto simp: numeral_2_eq_2)
qed


text \<open>
  Claim C6. \<open>div(a, b)\<close> panics exactly when \<open>b = 0\<close>. For \<open>b\<close> other than 0 it
  returns a quotient \<open>q\<close> with \<open>mult(q, b) = a\<close>, and \<open>div(0, b) = 0\<close>.
\<close>

theorem div_mult_consistency:
  "(div_gf a b = None \<longleftrightarrow> b = 0)
   \<and> (b \<noteq> 0 \<longrightarrow> (\<exists>q. div_gf a b = Some q \<and> mult q b = a) \<and> div_gf 0 b = Some 0)"
proof (intro conjI impI)
  show "div_gf a b = None \<longleftrightarrow> b = 0" by (rule div_gf_None)
next
  assume b: "b \<noteq> 0"
  then have "GF b \<noteq> 0" by (simp add: zero_gf16_def)
  then have "mult (rep (GF a / GF b)) b = a" by (simp add: mult_correct)
  then show "\<exists>q. div_gf a b = Some q \<and> mult q b = a" by (simp add: div_gf_correct[OF b])
  show "div_gf 0 b = Some 0" using div_gf_correct[OF b, of 0] by (simp add: zero_gf16_def[symmetric])
qed

theorem div_mult_consistency_witness:
  "(3::uint16) \<noteq> 0 \<and> div_gf 6 3 \<noteq> None \<and> (\<exists>q. div_gf 6 3 = Some q \<and> mult q 3 = 6) \<and> div_gf 0 3 = Some 0"
  using div_mult_consistency[of 6 3] by simp

text \<open>
  Claim C7. The loop of the generator ends, with the tables \<open>expTable\<close> and
  \<open>logTable\<close> and 65536 counted elements. For every \<open>v\<close> from 1 to 65535,
  \<open>expTable[logTable[v]] = v\<close>, and \<open>expTable[0] = 1\<close>.
\<close>

theorem tables_round_trip:
  "tableLoop generator (tableInit generator) = Some (1, expTable, logTable, 65536)
   \<and> (v \<noteq> 0 \<longrightarrow> expTable ! unat (logTable ! unat v) = v)
   \<and> expTable ! 0 = 1"
  by (simp add: tableLoop_tables exp_log expTable_nth)

theorem tables_round_trip_witness:
  "(257::uint16) \<noteq> 0 \<and> expTable ! unat (logTable ! unat (257::uint16)) = 257 \<and> expTable ! 0 = 1"
  using tables_round_trip[of 257] by simp

text \<open>
  Claim C8. When \<open>Split\<close> returns shares, there are \<open>parts\<close> of them, every share
  is \<open>ShareOverhead = 2\<close> bytes longer than the secret, and the trailing big-endian
  16-bit word of share \<open>i\<close> (counted from 0) is the number \<open>i + 1\<close>: the x values
  are 1, ..., N and never 0.
\<close>

theorem Split_share_shape:
  "fst (Split secret parts threshold rnd) = Some (Inr shares) \<Longrightarrow>
     length shares = nat parts
     \<and> (\<forall>i<nat parts. length (shares ! i) = length secret + ShareOverhead
                      \<and> unat (xtag (shares ! i)) = i + 1)"
  using Split_share_props[of secret parts threshold rnd shares] Split_length[of secret parts threshold rnd shares]
  by (simp add: ShareOverhead_def)

theorem Split_share_shape_witness:
  "\<exists>shares. fst (Split [0x74, 0x65, 0x73, 0x74] 5 3 (\<lambda>k. Inr (\<lambda>i. 0))) = Some (Inr shares)
     \<and> length shares = 5
     \<and> length (shares ! 0) = 6 \<and> unat (xtag (shares ! 0)) = 1
     \<and> length (shares ! 4) = 6 \<and> unat (xtag (shares ! 4)) = 5"
proof -
  obtain shares fx where "Split [0x74, 0x65, 0x73, 0x74] 5 3 (\<lambda>k. Inr (\<lambda>i. 0)) = (Some (Inr shares), fx)"
    using Split_valid_ok[of "\<lambda>k. Inr (\<lambda>i. 0)" "[0x74, 0x65, 0x73, 0x74]" 5 3]
    by (auto simp: rand_ok_def first_violation_def)
  then have s: "fst (Split [0x74, 0x65, 0x73, 0x74] 5 3 (\<lambda>k. Inr (\<lambda>i. 0))) = Some (Inr shares)" by simp
  from Split_share_shape[OF s] show ?thesis using s by (auto simp: ShareOverhead_def)
qed

text \<open>
  Claim C9. When \<open>Combine\<close> returns a secret for a list of parts, it returns the same
  secret for every permutation of the list: for the parts taken in the order of any
  list \<open>idxs\<close> that names every position exactly once.
\<close>

theorem Combine_permutation:
  "Combine parts = Some (Inr s) \<Longrightarrow> distinct idxs \<Longrightarrow> set idxs = {..<length parts} \<Longrightarrow>
   Combine (map ((!) parts) idxs) = Some (Inr s)"
proof -
  assume c: "Combine parts = Some (Inr s)" and p: "distinct idxs" "set idxs = {..<length parts}"
  note r = Combine_result[OF c]
  note r' = reindex_accepted[OF r(1) p]
  have "combined (map ((!) parts) idxs) = combined parts"
    using r(1) r' by (intro combined_set_eq)
  then show ?thesis using Combine_accepts[OF r'(1)] r(2) by simp
qed

theorem Combine_permutation_witness:
  "Combine [[0, 5, 0, 0], [0, 7, 0, 1]] = Some (Inr [0, 5])
   \<and> distinct [1, 0::nat] \<and> set [1, 0::nat] = {..<length [[0, 5, 0, 0], [0, 7, 0, 1 :: byte]]}
   \<and> Combine [[0, 7, 0, 1], [0, 5, 0, 0]] = Some (Inr [0, 5])"
proof -
  have "\<not> rejected [[0, 5, 0, 0], [0, 7, 0, 1]]" by (simp add: rejected_def xtag_4)
  then have c: "Combine [[0, 5, 0, 0], [0, 7, 0, 1]] = Some (Inr [0, 5])"
    by (simp add: Combine_accepts combined_zero_tag)
  have d: "distinct [1, 0::nat]" by simp
  have s: "set [1, 0::nat] = {..<length [[0, 5, 0, 0], [0, 7, 0, 1 :: byte]]}" by auto
  from Combine_permutation[OF c d s] c d s show ?thesis by simp
qed

text \<open>
  Claim C10. \<open>Combine\<close> does not look at the value of the x words beyond comparing
  them: the two parts \<open>00 05 00 00\<close> and \<open>00 07 00 01\<close>, with the x values 0 and 1,
  are combined without error (to \<open>00 05\<close>, the y value of the part with x = 0),
  although no share that \<open>Split\<close> returns has the x value 0.
\<close>

theorem Combine_accepts_zero_tag:
  "xtag [0, 5, 0, 0] = 0 \<and> xtag [0, 7, 0, 1] = 1
   \<and> Combine [[0, 5, 0, 0], [0, 7, 0, 1]] = Some (Inr [0, 5])
   \<and> (fst (Split secret parts threshold rnd) = Some (Inr shares) \<longrightarrow> (\<forall>share\<in>set shares. xtag share \<noteq> 0))"
proof -
  have "\<not> rejected [[0, 5, 0, 0], [0, 7, 0, 1]]" by (simp add: rejected_def xtag_4)
  then have "Combine [[0, 5, 0, 0], [0, 7, 0, 1]] = Some (Inr [0, 5])"
    by (simp add: Combine_accepts combined_zero_tag)
  then show ?thesis using Split_tags_nonzero[of secret parts threshold rnd shares]
    by (simp add: xtag_4)
qed

theorem Combine_accepts_zero_tag_witness:
  "\<exists>shares. fst (Split [0x74, 0x65, 0x73, 0x74] 5 3 (\<lambda>k. Inr (\<lambda>i. 0))) = Some (Inr shares)
     \<and> xtag (shares ! 0) \<noteq> 0
     \<and> Combine [[0, 5, 0, 0], [0, 7, 0, 1]] = Some (Inr [0, 5])"
proof -
  obtain shares fx where "Split [0x74, 0x65, 0x73, 0x74] 5 3 (\<lambda>k. Inr (\<lambda>i. 0)) = (Some (Inr shares), fx)"
    using Split_valid_ok[of "\<lambda>k. Inr (\<lambda>i. 0)" "[0x74, 0x65, 0x73, 0x74]" 5 3]
    by (auto simp: rand_ok_def first_violation_def)
  then have s: "fst (Split [0x74, 0x65, 0x73, 0x74] 5 3 (\<lambda>k. Inr (\<lambda>i. 0))) = Some (Inr shares)" by simp
  then have "length shares = 5" using Split_length[OF s] by simp
  then have "shares ! 0 \<in> set shares" by (intro nth_mem) simp
  with Combine_accepts_zero_tag[of "[0x74, 0x65, 0x73, 0x74]" 5 3 "\<lambda>k. Inr (\<lambda>i. 0)" shares] s
  show ?thesis by blast
qed

end
